theory Spec2Isabelle
  imports Complex_Main
begin

section \<open>Python and numpy primitives used by the notebook\<close>

text \<open>
  The notebook \<^verbatim>\<open>decoding_SSP.ipynb\<close> computes with numpy arrays of 64-bit floats.
  Floats are idealised as \<^typ>\<open>real\<close> (and complex floats as \<^typ>\<open>complex\<close>), arrays as lists.
  What numpy raises is a value of \<open>fault\<close>. \<open>NonFinite\<close> is not an exception: it
  stands for an array that numpy returns holding \<^verbatim>\<open>nan\<close> or \<^verbatim>\<open>inf\<close> entries (division
  by a zero coefficient, zero to a negative power), which a real number cannot represent.
\<close>

datatype fault = ValueError | IndexError | ZeroDivisionError | NonFinite

definition and_then :: "fault + 'a \<Rightarrow> ('a \<Rightarrow> fault + 'b) \<Rightarrow> fault + 'b" where
  "and_then r f = (case r of Inl e \<Rightarrow> Inl e | Inr x \<Rightarrow> f x)"

text \<open>Python normalises a slice bound against the length: negative bounds count from the end.\<close>

definition norm_idx :: "int \<Rightarrow> nat \<Rightarrow> nat" where
  "norm_idx i n = (if i < 0 then nat (max 0 (int n + i)) else min (nat i) n)"

definition slice :: "'a list \<Rightarrow> int \<Rightarrow> int \<Rightarrow> 'a list" where
  \<comment> \<open>\<^verbatim>\<open>xs[i:j]\<close>\<close>
  "slice xs i j = (let lo = norm_idx i (length xs); hi = norm_idx j (length xs)
                   in take (hi - lo) (drop lo xs))"

definition slice_from :: "'a list \<Rightarrow> int \<Rightarrow> 'a list" where
  \<comment> \<open>\<^verbatim>\<open>xs[i:]\<close>\<close>
  "slice_from xs i = drop (norm_idx i (length xs)) xs"

definition slice_to :: "'a list \<Rightarrow> int \<Rightarrow> 'a list" where
  \<comment> \<open>\<^verbatim>\<open>xs[:j]\<close>\<close>
  "slice_to xs j = take (norm_idx j (length xs)) xs"

text \<open>
  Elementwise numpy operations on two one-dimensional arrays broadcast: equal lengths
  combine pointwise, an operand of length one is stretched to the other's length, and
  any other pair of lengths raises \<^verbatim>\<open>ValueError\<close>.
\<close>

definition broadcast2 :: "('a \<Rightarrow> 'b \<Rightarrow> 'c) \<Rightarrow> 'a list \<Rightarrow> 'b list \<Rightarrow> fault + 'c list" where
  "broadcast2 f xs ys =
     (if length xs = length ys then Inr (map2 f xs ys)
      else if length xs = 1 then Inr (map (f (hd xs)) ys)
      else if length ys = 1 then Inr (map (\<lambda>x. f x (hd ys)) xs)
      else Inl ValueError)"

text \<open>\<^verbatim>\<open>np.dot\<close> and \<^verbatim>\<open>@\<close> on two one-dimensional arrays: lengths must agree.\<close>

definition np_dot :: "real list \<Rightarrow> real list \<Rightarrow> fault + real" where
  "np_dot xs ys =
     (if length xs = length ys then Inr (sum_list (map2 (*) xs ys)) else Inl ValueError)"

text \<open>An array computed entry by entry is non-finite as soon as one entry is.\<close>

fun collect :: "(fault + 'a) list \<Rightarrow> fault + 'a list" where
  "collect [] = Inr []"
| "collect (r # rs) = and_then r (\<lambda>x. and_then (collect rs) (\<lambda>xs. Inr (x # xs)))"

definition cdiv :: "complex \<Rightarrow> complex \<Rightarrow> fault + complex" where
  \<comment> \<open>complex division; a zero divisor gives \<^verbatim>\<open>nan\<close> or \<^verbatim>\<open>inf\<close>\<close>
  "cdiv x y = (if y = 0 then Inl NonFinite else Inr (x / y))"

definition cpow :: "complex \<Rightarrow> real \<Rightarrow> fault + complex" where
  \<comment> \<open>\<^verbatim>\<open>z ** p\<close> for a complex \<open>z\<close> and a real \<open>p\<close>: \<open>1\<close> when \<open>p = 0\<close>, for \<open>z = 0\<close> zero when
      \<open>p > 0\<close> and \<^verbatim>\<open>nan\<close> otherwise, else the principal value \<open>exp (p \<cdot> log z)\<close>\<close>
  "cpow z p =
     (if p = 0 then Inr 1
      else if z = 0 then (if p > 0 then Inr 0 else Inl NonFinite)
      else Inr (of_real (cmod z powr p) * cis (p * Arg z)))"

text \<open>
  Python list and array element access and assignment: a negative index counts from the
  end, an index outside the array raises \<^verbatim>\<open>IndexError\<close>.
\<close>

definition get_item :: "'a list \<Rightarrow> int \<Rightarrow> fault + 'a" where
  "get_item xs i =
     (let n = int (length xs); j = (if i < 0 then n + i else i)
      in if 0 \<le> j \<and> j < n then Inr (xs ! nat j) else Inl IndexError)"

definition set_item :: "'a list \<Rightarrow> int \<Rightarrow> 'a \<Rightarrow> fault + 'a list" where
  "set_item xs i y =
     (let n = int (length xs); j = (if i < 0 then n + i else i)
      in if 0 \<le> j \<and> j < n then Inr (xs[nat j := y]) else Inl IndexError)"

text \<open>
  \<^verbatim>\<open>xs[i:] = ys\<close> on a numpy array: the lengths must agree, or \<open>ys\<close> has one entry that
  fills the slice; anything else raises \<^verbatim>\<open>ValueError\<close>.
\<close>

definition set_slice_from :: "'a list \<Rightarrow> int \<Rightarrow> 'a list \<Rightarrow> fault + 'a list" where
  "set_slice_from xs i ys =
     (let lo = norm_idx i (length xs); n = length xs - lo
      in if length ys = n then Inr (take lo xs @ ys)
         else if length ys = 1 then Inr (take lo xs @ replicate n (hd ys))
         else Inl ValueError)"

text \<open>
  \<^verbatim>\<open>numpy.fft.fft\<close> and \<^verbatim>\<open>ifft\<close> as numpy documents them: the discrete Fourier transform
  \<open>A\<^sub>k = \<Sum>\<^sub>m a\<^sub>m exp (-2\<pi>i mk/n)\<close> and its inverse with the factor \<open>1/n\<close>. An empty
  array raises \<^verbatim>\<open>ValueError\<close>.
\<close>

definition dft :: "complex list \<Rightarrow> complex list" where
  "dft xs = map (\<lambda>k. \<Sum>m < length xs.
                    xs ! m * cis (- (2 * pi * real m * real k / real (length xs))))
                [0..<length xs]"

definition idft :: "complex list \<Rightarrow> complex list" where
  "idft xs = map (\<lambda>m. (\<Sum>k < length xs.
                    xs ! k * cis (2 * pi * real k * real m / real (length xs)))
                    / of_nat (length xs))
                 [0..<length xs]"

text \<open>A spectrum is conjugate-symmetric when entry \<open>n - k\<close> (modulo \<open>n\<close>) is the conjugate of entry \<open>k\<close>.\<close>

definition herm :: "complex list \<Rightarrow> bool" where
  "herm xs \<longleftrightarrow> (\<forall>k < length xs. xs ! ((length xs - k) mod length xs) = cnj (xs ! k))"

definition fft :: "complex list \<Rightarrow> fault + complex list" where
  "fft xs = (if xs = [] then Inl ValueError else Inr (dft xs))"

definition ifft :: "complex list \<Rightarrow> fault + complex list" where
  "ifft xs = (if xs = [] then Inl ValueError else Inr (idft xs))"

section \<open>The class \<^verbatim>\<open>MySP\<close> (cell 2)\<close>

text \<open>
  The attributes \<^verbatim>\<open>D\<close>, \<^verbatim>\<open>v\<close> and \<^verbatim>\<open>a\<close>. The attribute \<^verbatim>\<open>a\<close> is set only by the
  random construction. \<^verbatim>\<open>MySP(v=v)\<close> keeps the default \<^verbatim>\<open>D=10\<close> whatever the length of \<open>v\<close>.
\<close>

record MySP =
  sp_D :: nat
  sp_v :: "real list"
  sp_a :: "real list option"

definition MySP_from :: "real list \<Rightarrow> MySP" where
  \<comment> \<open>\<^verbatim>\<open>MySP(v=v)\<close>\<close>
  "MySP_from vals = \<lparr>sp_D = 10, sp_v = vals, sp_a = None\<rparr>"

text \<open>
  \<^verbatim>\<open>MySP(D=D)\<close>. The process-wide random generator is made a parameter: \<open>samples\<close> is
  the array that \<^verbatim>\<open>random.normal(size=self.D)\<close> returns, of length \<open>D\<close>.
\<close>

definition MySP_init :: "nat \<Rightarrow> real list \<Rightarrow> fault + MySP" where
  "MySP_init ndim samples =
     (let angles = map (\<lambda>s. s * 2) samples;
          D2 = (ndim + 1) div 2
      in and_then (set_slice_from angles (- int D2 + 1)
                     (rev (map uminus (slice angles 1 (int D2))))) (\<lambda>angles.
         and_then (set_item angles 0 0) (\<lambda>angles.
         and_then (if ndim mod 2 = 0 then set_item angles (int D2) 0 else Inr angles) (\<lambda>angles.
         and_then (ifft (map (\<lambda>t. exp (\<i> * complex_of_real t)) angles)) (\<lambda>s.
         Inr \<lparr>sp_D = ndim, sp_v = map Re s, sp_a = Some angles\<rparr>)))))"

text \<open>A vector is unitary when every Fourier coefficient of its values has modulus one.\<close>

definition is_unitary :: "MySP \<Rightarrow> bool" where
  "is_unitary self \<longleftrightarrow> (\<forall>c \<in> set (dft (map complex_of_real (sp_v self))). cmod c = 1)"

definition unitary :: "MySP \<Rightarrow> fault + MySP" where
  "unitary self =
     and_then (fft (map complex_of_real (sp_v self))) (\<lambda>c.
     and_then (ifft (map (\<lambda>z. exp (\<i> * complex_of_real (Arg z))) c)) (\<lambda>s.
     Inr (MySP_from (map Re s))))"

definition scale :: "MySP \<Rightarrow> real \<Rightarrow> MySP" where
  \<comment> \<open>\<^verbatim>\<open>__mul__\<close>\<close>
  "scale self s = MySP_from (map (\<lambda>x. x * s) (sp_v self))"

definition bind :: "MySP \<Rightarrow> MySP \<Rightarrow> fault + MySP" where
  "bind self y =
     and_then (fft (map complex_of_real (sp_v self))) (\<lambda>c1.
     and_then (fft (map complex_of_real (sp_v y))) (\<lambda>c2.
     and_then (broadcast2 (*) c1 c2) (\<lambda>c.
     and_then (ifft c) (\<lambda>s.
     Inr (MySP_from (map Re s))))))"

definition unbind :: "MySP \<Rightarrow> MySP \<Rightarrow> fault + MySP" where
  "unbind self y =
     and_then (fft (map complex_of_real (sp_v self))) (\<lambda>c1.
     and_then (fft (map complex_of_real (sp_v y))) (\<lambda>c2.
     and_then (broadcast2 cdiv c1 c2) (\<lambda>q.
     and_then (collect q) (\<lambda>c.
     and_then (ifft c) (\<lambda>s.
     Inr (MySP_from (map Re s)))))))"

definition bundle_sp :: "MySP \<Rightarrow> MySP \<Rightarrow> fault + MySP" where
  \<comment> \<open>\<^verbatim>\<open>bundle\<close>\<close>
  "bundle_sp self y =
     and_then (broadcast2 (+) (sp_v self) (sp_v y)) (\<lambda>s. Inr (MySP_from s))"

definition power_sp :: "MySP \<Rightarrow> real \<Rightarrow> fault + MySP" where
  \<comment> \<open>\<^verbatim>\<open>power\<close>\<close>
  "power_sp self p =
     and_then (fft (map complex_of_real (sp_v self))) (\<lambda>c.
     and_then (collect (map (\<lambda>z. cpow z p) c)) (\<lambda>c.
     and_then (ifft c) (\<lambda>s.
     Inr (MySP_from (map Re s)))))"

definition similarity :: "MySP \<Rightarrow> MySP \<Rightarrow> fault + real" where
  "similarity self y = np_dot (sp_v self) (sp_v y)"

section \<open>The class \<^verbatim>\<open>HRR\<close> (cell 5)\<close>

record HRR =
  hrr_N :: nat
  hrr_D :: nat
  vocab :: "MySP list"

definition HRR_init :: "nat \<Rightarrow> nat \<Rightarrow> (nat \<Rightarrow> real list) \<Rightarrow> fault + HRR" where
  \<comment> \<open>\<open>samples k\<close> is the array drawn by the call \<^verbatim>\<open>MySP(D=self.D)\<close> of iteration \<open>k\<close>\<close>
  "HRR_init n ndim samples =
     and_then (collect (map (\<lambda>k. MySP_init ndim (samples k)) [0..<n])) (\<lambda>vs.
     Inr \<lparr>hrr_N = n, hrr_D = ndim, vocab = vs\<rparr>)"

definition HRR_call :: "HRR \<Rightarrow> int \<Rightarrow> fault + MySP" where
  \<comment> \<open>\<^verbatim>\<open>__call__\<close>: \<^verbatim>\<open>self.vocab[idx]\<close>\<close>
  "HRR_call self idx = get_item (vocab self) idx"

text \<open>
  The scan of \<^verbatim>\<open>cleanup\<close> over \<^verbatim>\<open>enumerate(self.vocab)\<close>, carrying \<^verbatim>\<open>closest\<close> and
  \<^verbatim>\<open>max_sim\<close>.
\<close>

fun cleanup_scan :: "MySP \<Rightarrow> (nat \<times> MySP) list \<Rightarrow> int \<Rightarrow> real \<Rightarrow> fault + (int \<times> real)" where
  "cleanup_scan x [] closest max_sim = Inr (closest, max_sim)"
| "cleanup_scan x ((k, s) # rest) closest max_sim =
     and_then (similarity x s) (\<lambda>sim.
       if sim > max_sim then cleanup_scan x rest (int k) sim
       else cleanup_scan x rest closest max_sim)"

definition cleanup :: "HRR \<Rightarrow> MySP \<Rightarrow> fault + (MySP \<times> int \<times> real)" where
  "cleanup self x =
     and_then (cleanup_scan x (enumerate 0 (vocab self)) (- 1) (- (10 ^ 50))) (\<lambda>(closest, max_sim).
     and_then (HRR_call self closest) (\<lambda>s.
     Inr (s, closest, max_sim)))"

section \<open>Coupling construction (cells 14 and 15)\<close>

text \<open>
  \<^verbatim>\<open>sidx = argsort(sp.a)\<close>. numpy's default sort is not stable, so the order it gives to
  equal phases is not fixed; \<open>is_argsort\<close> says what every result satisfies, and
  \<open>argsort\<close> is the stable instance.
\<close>

definition is_argsort :: "real list \<Rightarrow> nat list \<Rightarrow> bool" where
  "is_argsort phase sidx \<longleftrightarrow>
     length sidx = length phase \<and> set sidx = {..<length phase} \<and> distinct sidx \<and>
     sorted (map (\<lambda>i. phase ! i) sidx)"

definition argsort :: "real list \<Rightarrow> nat list" where
  "argsort phase = sort_key (\<lambda>i. phase ! i) [0..<length phase]"

definition adjacent_couplings :: "nat list \<Rightarrow> (nat \<times> nat) list" where
  \<comment> \<open>\<^verbatim>\<open>list(zip(sidx[:-1], sidx[1:]))\<close>\<close>
  "adjacent_couplings sidx = zip (slice_to sidx (- 1)) (slice_from sidx 1)"

definition skip_couplings :: "nat list \<Rightarrow> (nat \<times> nat) list" where
  \<comment> \<open>\<^verbatim>\<open>zip(sidx[:-2], sidx[2:])\<close>\<close>
  "skip_couplings sidx = zip (slice_to sidx (- 2)) (slice_from sidx 2)"

definition couplings_of :: "nat list \<Rightarrow> (nat \<times> nat) list" where
  \<comment> \<open>the list after \<^verbatim>\<open>couplings.extend(...)\<close>\<close>
  "couplings_of sidx = adjacent_couplings sidx @ skip_couplings sidx"

definition DeltaA_of :: "real list \<Rightarrow> (nat \<times> nat) list \<Rightarrow> fault + real list" where
  \<comment> \<open>\<^verbatim>\<open>array([sp.a[c[0]]-sp.a[c[1]] for c in couplings])\<close>; an index past the end raises\<close>
  "DeltaA_of phase couplings =
     (if \<forall>c \<in> set couplings. fst c < length phase \<and> snd c < length phase
      then Inr (map (\<lambda>c. phase ! fst c - phase ! snd c) couplings)
      else Inl IndexError)"

definition DeltaPhi_of :: "complex list \<Rightarrow> (nat \<times> nat) list \<Rightarrow> fault + real list" where
  \<comment> \<open>cell 17: \<^verbatim>\<open>array([angle(V[c[0]]*conj(V[c[1]])) for c in couplings])\<close>\<close>
  "DeltaPhi_of V couplings =
     (if \<forall>c \<in> set couplings. fst c < length V \<and> snd c < length V
      then Inr (map (\<lambda>c. Arg (V ! fst c * cnj (V ! snd c))) couplings)
      else Inl IndexError)"

section \<open>The decoding loop (cell 18)\<close>

text \<open>
  One pass of the loop body up to \<^verbatim>\<open>x_increment\<close>: the residual
  \<^verbatim>\<open>DeltaPhi - DeltaA * x\<close>, the outlier mask \<^verbatim>\<open>abs(resid)>1./iter\<close>, the masked
  assignment \<^verbatim>\<open>resid[outliers] = 0.\<close> and \<^verbatim>\<open>kappa * (DeltaA @ resid)\<close>.
\<close>

definition x_increment_of :: "real \<Rightarrow> real list \<Rightarrow> real list \<Rightarrow> nat \<Rightarrow> real \<Rightarrow> fault + real" where
  "x_increment_of kappa DeltaPhi DeltaA iter x =
     and_then (broadcast2 (-) DeltaPhi (map (\<lambda>d. d * x) DeltaA)) (\<lambda>resid.
       if iter = 0 then Inl ZeroDivisionError
       else
         let outliers = map (\<lambda>r. \<bar>r\<bar> > 1 / real iter) resid;
             resid = map2 (\<lambda>r out. if out then 0 else r) resid outliers
         in and_then (np_dot DeltaA resid) (\<lambda>d. Inr (kappa * d)))"

text \<open>How the \<^verbatim>\<open>for\<close> loop was left: by \<^verbatim>\<open>break\<close> in the given iteration, or by exhausting the range.\<close>

datatype exit = Break nat | Exhausted

function decode_loop ::
  "real \<Rightarrow> real \<Rightarrow> real list \<Rightarrow> real list \<Rightarrow> nat \<Rightarrow> nat \<Rightarrow> real \<Rightarrow> fault + (real \<times> exit)" where
  "decode_loop kappa eps DeltaPhi DeltaA max_iters iter x =
     (if iter < max_iters then
        and_then (x_increment_of kappa DeltaPhi DeltaA iter x) (\<lambda>x_increment.
          let x = x + x_increment
          in if \<bar>x_increment\<bar> < eps then Inr (x, Break iter)
             else decode_loop kappa eps DeltaPhi DeltaA max_iters (iter + 1) x)
      else Inr (x, Exhausted))"
  by pat_completeness auto
termination
  by (relation "measure (\<lambda>(kappa, eps, DeltaPhi, DeltaA, max_iters, iter, x). max_iters - iter)") auto

declare decode_loop.simps [simp del]

text \<open>The cell as written: \<^verbatim>\<open>x = 0.\<close>, \<^verbatim>\<open>kappa = 0.1\<close>, \<^verbatim>\<open>max_iters = 100\<close>,
  \<^verbatim>\<open>range(1,max_iters)\<close> and the threshold \<^verbatim>\<open>0.0001\<close>.\<close>

definition decode :: "real list \<Rightarrow> real list \<Rightarrow> fault + (real \<times> exit)" where
  "decode DeltaPhi DeltaA = decode_loop (1/10) (1/10000) DeltaPhi DeltaA 100 1 0"

subsection \<open>The iteration as the specification words it\<close>

text \<open>
  The residual of coupling \<open>i\<close> at iteration \<open>t\<close> from the estimate \<open>x\<close>, zeroed when its
  magnitude exceeds \<open>1/t\<close>; the increment \<open>\<kappa> \<cdot> (\<Delta>A \<cdot> r)\<close>; and the estimate after \<open>t\<close>
  iterations, starting from \<open>0\<close>.
\<close>

definition spec_resid :: "real list \<Rightarrow> real list \<Rightarrow> nat \<Rightarrow> real \<Rightarrow> nat \<Rightarrow> real" where
  "spec_resid DeltaPhi DeltaA t x i =
     (let r = DeltaPhi ! i - DeltaA ! i * x in if \<bar>r\<bar> > 1 / real t then 0 else r)"

definition spec_increment :: "real \<Rightarrow> real list \<Rightarrow> real list \<Rightarrow> nat \<Rightarrow> real \<Rightarrow> real" where
  "spec_increment kappa DeltaPhi DeltaA t x =
     kappa * (\<Sum>i < length DeltaA. DeltaA ! i * spec_resid DeltaPhi DeltaA t x i)"

fun spec_x :: "real \<Rightarrow> real list \<Rightarrow> real list \<Rightarrow> nat \<Rightarrow> real" where
  "spec_x kappa DeltaPhi DeltaA 0 = 0"
| "spec_x kappa DeltaPhi DeltaA (Suc t) =
     spec_x kappa DeltaPhi DeltaA t +
     spec_increment kappa DeltaPhi DeltaA (Suc t) (spec_x kappa DeltaPhi DeltaA t)"

definition spec_inc :: "real \<Rightarrow> real list \<Rightarrow> real list \<Rightarrow> nat \<Rightarrow> real" where
  \<comment> \<open>the increment of iteration \<open>t\<close>, computed from the estimate after \<open>t - 1\<close> iterations\<close>
  "spec_inc kappa DeltaPhi DeltaA t =
     spec_increment kappa DeltaPhi DeltaA t (spec_x kappa DeltaPhi DeltaA (t - 1))"

section \<open>The discrete Fourier transform and its inverse\<close>

text \<open>The sum of the \<open>n\<close>-th roots of unity vanishes, from which both inversion laws follow.\<close>


lemma cis_2pi_int: "cis (2 * pi * real_of_int q) = 1"
  by (rule cis_multiple_2pi) simp

lemma cis_shift_2pi: "cis (x + 2 * pi * real_of_int j) = cis x"
proof -
  have "cis (x + 2 * pi * real_of_int j) = cis x * cis (2 * pi * real_of_int j)"
    by (simp only: cis_mult)
  then show ?thesis by (simp only: cis_2pi_int mult_1_right)
qed

lemma int_dvd_small:
  assumes "int n dvd d" and "\<bar>d\<bar> < int n"
  shows "d = 0"
proof (rule ccontr)
  assume "d \<noteq> 0"
  then have "0 < \<bar>d\<bar>" by simp
  from zdvd_not_zless [OF this assms(2)] assms(1) show False by simp
qed

lemma cis_pair:
  "cis (2 * pi * real j * real m / real n) * cis (- (2 * pi * real m * real k / real n)) =
   cis (2 * pi * real_of_int (int j - int k) * real m / real n)"
proof -
  have "2 * pi * real j * real m / real n + - (2 * pi * real m * real k / real n) =
        2 * pi * real_of_int (int j - int k) * real m / real n"
    by (simp add: algebra_simps diff_divide_distrib)
  then show ?thesis by (simp only: cis_mult)
qed

lemma cis_pair':
  "cis (- (2 * pi * real j * real m / real n)) * cis (2 * pi * real m * real k / real n) =
   cis (2 * pi * real_of_int (int k - int j) * real m / real n)"
proof -
  have "- (2 * pi * real j * real m / real n) + 2 * pi * real m * real k / real n =
        2 * pi * real_of_int (int k - int j) * real m / real n"
    by (simp add: algebra_simps diff_divide_distrib)
  then show ?thesis by (simp only: cis_mult)
qed

lemma cis_eq_one_imp:
  assumes "cis x = 1"
  shows "\<exists>q::int. x = real_of_int q * 2 * pi"
proof -
  from assms have "cos x = 1" by (simp add: complex_eq_iff)
  then show ?thesis by (simp add: cos_one_2pi_int)
qed

lemma root_unity_sum:
  assumes n: "0 < n"
  shows "(\<Sum>m<n. cis (2 * pi * real_of_int j * real m / real n)) =
         (if int n dvd j then of_nat n else 0)"
proof -
  define w where "w = cis (2 * pi * real_of_int j / real n)"
  have pw: "cis (2 * pi * real_of_int j * real m / real n) = w ^ m" for m
    by (simp add: w_def DeMoivre algebra_simps)
  have wn: "w ^ n = 1"
  proof -
    have "w ^ n = cis (2 * pi * real_of_int j)"
      using n by (simp add: w_def DeMoivre)
    then show ?thesis by (simp only: cis_2pi_int)
  qed
  show ?thesis
  proof (cases "int n dvd j")
    case True
    then obtain q where q: "j = int n * q" by (auto simp: dvd_def)
    have "2 * pi * real_of_int j / real n = 2 * pi * real_of_int q"
      using n by (simp add: q)
    then have "w = cis (2 * pi * real_of_int q)"
      by (simp only: w_def)
    then have "w = 1" by (simp only: cis_2pi_int)
    then show ?thesis using True by (simp add: pw)
  next
    case False
    have "w \<noteq> 1"
    proof
      assume "w = 1"
      then obtain q :: int where q: "2 * pi * real_of_int j / real n = real_of_int q * 2 * pi"
        unfolding w_def using cis_eq_one_imp by blast
      then have "real_of_int j = real_of_int (q * int n)"
        using n by (simp add: field_simps)
      then have "j = q * int n" by (simp only: of_int_eq_iff)
      with False show False by simp
    qed
    then have "(\<Sum>m<n. w ^ m) = (w ^ n - 1) / (w - 1)"
      by (rule geometric_sum)
    then show ?thesis using False by (simp add: pw wn)
  qed
qed

lemma length_dft [simp]: "length (dft xs) = length xs"
  by (simp add: dft_def)

lemma length_idft [simp]: "length (idft xs) = length xs"
  by (simp add: idft_def)

lemma nth_dft:
  "k < length xs \<Longrightarrow>
   dft xs ! k = (\<Sum>m < length xs. xs ! m * cis (- (2 * pi * real m * real k / real (length xs))))"
  by (simp add: dft_def)

lemma nth_idft:
  "m < length xs \<Longrightarrow>
   idft xs ! m = (\<Sum>k < length xs. xs ! k * cis (2 * pi * real k * real m / real (length xs)))
                 / of_nat (length xs)"
  by (simp add: idft_def)

lemma orth_pick:
  fixes f :: "nat \<Rightarrow> complex"
  assumes n: "0 < n" and k: "k < n"
  shows "(\<Sum>j<n. f j * (if int n dvd int j - int k then of_nat n else 0)) = of_nat n * f k"
proof -
  have "int n dvd int j - int k \<longleftrightarrow> j = k" if "j < n" for j
  proof
    assume d: "int n dvd int j - int k"
    have "\<bar>int j - int k\<bar> < int n" using that k by auto
    with d have "int j - int k = 0" by (rule int_dvd_small)
    then show "j = k" by simp
  qed simp
  then have "(\<Sum>j<n. f j * (if int n dvd int j - int k then of_nat n else 0)) =
             (\<Sum>j<n. if j = k then f k * of_nat n else 0)"
    by (intro sum.cong) auto
  also have "\<dots> = f k * of_nat n"
    using k by (simp add: sum.delta)
  finally show ?thesis by (simp add: mult.commute)
qed

lemma dft_idft_sum:
  fixes f :: "nat \<Rightarrow> complex"
  assumes n: "0 < n" and k: "k < n"
  shows "(\<Sum>m<n. (\<Sum>j<n. f j * cis (2 * pi * real j * real m / real n)) *
                 cis (- (2 * pi * real m * real k / real n))) = of_nat n * f k"
proof -
  have "(\<Sum>m<n. (\<Sum>j<n. f j * cis (2 * pi * real j * real m / real n)) *
                 cis (- (2 * pi * real m * real k / real n)))
      = (\<Sum>m<n. \<Sum>j<n. f j * cis (2 * pi * real_of_int (int j - int k) * real m / real n))"
    by (simp only: sum_distrib_right mult.assoc [of "f _"] cis_pair)
  also have "\<dots> = (\<Sum>j<n. \<Sum>m<n. f j * cis (2 * pi * real_of_int (int j - int k) * real m / real n))"
    by (rule sum.swap)
  also have "\<dots> = (\<Sum>j<n. f j * (\<Sum>m<n. cis (2 * pi * real_of_int (int j - int k) * real m / real n)))"
    by (simp add: sum_distrib_left)
  also have "\<dots> = (\<Sum>j<n. f j * (if int n dvd int j - int k then of_nat n else 0))"
    by (simp only: root_unity_sum [OF n])
  also have "\<dots> = of_nat n * f k"
    by (rule orth_pick [OF n k])
  finally show ?thesis .
qed

lemma idft_dft_sum:
  fixes f :: "nat \<Rightarrow> complex"
  assumes n: "0 < n" and k: "k < n"
  shows "(\<Sum>m<n. (\<Sum>j<n. f j * cis (- (2 * pi * real j * real m / real n))) *
                 cis (2 * pi * real m * real k / real n)) = of_nat n * f k"
proof -
  have "(\<Sum>m<n. (\<Sum>j<n. f j * cis (- (2 * pi * real j * real m / real n))) *
                 cis (2 * pi * real m * real k / real n))
      = (\<Sum>m<n. \<Sum>j<n. f j * cis (2 * pi * real_of_int (int k - int j) * real m / real n))"
    by (simp only: sum_distrib_right mult.assoc [of "f _"] cis_pair')
  also have "\<dots> = (\<Sum>j<n. \<Sum>m<n. f j * cis (2 * pi * real_of_int (int k - int j) * real m / real n))"
    by (rule sum.swap)
  also have "\<dots> = (\<Sum>j<n. f j * (\<Sum>m<n. cis (2 * pi * real_of_int (int k - int j) * real m / real n)))"
    by (simp add: sum_distrib_left)
  also have "\<dots> = (\<Sum>j<n. f j * (if int n dvd int k - int j then of_nat n else 0))"
    by (simp only: root_unity_sum [OF n])
  also have "\<dots> = (\<Sum>j<n. f j * (if int n dvd int j - int k then of_nat n else 0))"
    by (intro sum.cong refl) (simp add: dvd_diff_commute)
  also have "\<dots> = of_nat n * f k"
    by (rule orth_pick [OF n k])
  finally show ?thesis .
qed

lemma dft_idft: "dft (idft xs) = xs"
proof (rule nth_equalityI)
  show "length (dft (idft xs)) = length xs" by simp
next
  fix k assume "k < length (dft (idft xs))"
  then have k: "k < length xs" by simp
  then have n: "0 < length xs" by (cases xs) auto
  have "dft (idft xs) ! k =
     (\<Sum>m < length xs. ((\<Sum>j < length xs. xs ! j * cis (2 * pi * real j * real m / real (length xs)))
                 / of_nat (length xs)) * cis (- (2 * pi * real m * real k / real (length xs))))"
    using k by (simp add: nth_dft nth_idft)
  also have "\<dots> = (\<Sum>m < length xs. (\<Sum>j < length xs. xs ! j * cis (2 * pi * real j * real m / real (length xs)))
                  * cis (- (2 * pi * real m * real k / real (length xs)))) / of_nat (length xs)"
    by (simp only: times_divide_eq_left flip: sum_divide_distrib)
  also have "\<dots> = xs ! k"
    using n by (simp only: dft_idft_sum [OF n k]) simp
  finally show "dft (idft xs) ! k = xs ! k" .
qed

lemma idft_dft: "idft (dft xs) = xs"
proof (rule nth_equalityI)
  show "length (idft (dft xs)) = length xs" by simp
next
  fix k assume "k < length (idft (dft xs))"
  then have k: "k < length xs" by simp
  then have n: "0 < length xs" by (cases xs) auto
  have "idft (dft xs) ! k =
     (\<Sum>m < length xs. (\<Sum>j < length xs. xs ! j * cis (- (2 * pi * real j * real m / real (length xs))))
                 * cis (2 * pi * real m * real k / real (length xs))) / of_nat (length xs)"
    using k by (simp add: nth_dft nth_idft)
  also have "\<dots> = xs ! k"
    using n by (simp only: idft_dft_sum [OF n k]) simp
  finally show "idft (dft xs) ! k = xs ! k" .
qed

subsection \<open>Conjugate symmetry and real signals\<close>


lemma mirror_lt: "0 < n \<Longrightarrow> (n - k) mod n < (n::nat)"
  by simp

lemma mirror_mirror: "k < n \<Longrightarrow> (n - (n - k) mod n) mod n = (k::nat)"
  by (cases "k = 0") auto

lemma cis_mirror:
  assumes n: "0 < n" and k: "k < n"
  shows "cis (- (2 * pi * real m * real ((n - k) mod n) / real n)) = cis (2 * pi * real m * real k / real n)"
proof (cases "k = 0")
  case True
  then show ?thesis by simp
next
  case False
  with k have md: "(n - k) mod n = n - k" by simp
  have r: "real (n - k) = real n - real k" using k by (simp add: of_nat_diff)
  have "- (2 * pi * real m * (real n - real k) / real n) =
        2 * pi * real m * real k / real n + 2 * pi * real_of_int (- int m)"
    using n by (simp add: field_simps)
  then show ?thesis
    by (simp only: md r cis_shift_2pi)
qed

lemma cis_mirror':
  assumes n: "0 < n" and k: "k < n"
  shows "cis (2 * pi * real ((n - k) mod n) * real m / real n) = cis (- (2 * pi * real k * real m / real n))"
proof -
  have "cis (2 * pi * real ((n - k) mod n) * real m / real n) =
        cnj (cis (- (2 * pi * real m * real ((n - k) mod n) / real n)))"
    by (simp add: cis_cnj ac_simps)
  also have "\<dots> = cnj (cis (2 * pi * real m * real k / real n))"
    by (simp only: cis_mirror [OF n k])
  also have "\<dots> = cis (- (2 * pi * real k * real m / real n))"
    by (simp add: cis_cnj ac_simps)
  finally show ?thesis .
qed

lemma herm_dft_real: "herm (dft (map complex_of_real r))"
  unfolding herm_def
proof (intro allI impI)
  fix k
  let ?xs = "map complex_of_real r"
  let ?n = "length ?xs"
  assume "k < length (dft ?xs)"
  then have k: "k < ?n" by simp
  then have n: "0 < ?n" by (cases r) auto
  have k': "(?n - k) mod ?n < ?n" using n by simp
  have "dft ?xs ! ((?n - k) mod ?n) =
        (\<Sum>m < ?n. ?xs ! m * cis (- (2 * pi * real m * real ((?n - k) mod ?n) / real ?n)))"
    using k' by (simp only: nth_dft)
  also have "\<dots> = (\<Sum>m < ?n. ?xs ! m * cis (2 * pi * real m * real k / real ?n))"
    by (simp only: cis_mirror [OF n k])
  also have "\<dots> = (\<Sum>m < ?n. cnj (?xs ! m * cis (- (2 * pi * real m * real k / real ?n))))"
    by (intro sum.cong refl) (simp add: cis_cnj)
  also have "\<dots> = cnj (dft ?xs ! k)"
    using k by (simp only: nth_dft cnj_sum)
  finally show "dft ?xs ! ((length (dft ?xs) - k) mod length (dft ?xs)) = cnj (dft ?xs ! k)"
    by (simp only: length_dft)
qed

lemma herm_idft_cnj:
  assumes h: "herm xs" and m: "m < length xs"
  shows "cnj (idft xs ! m) = idft xs ! m"
proof -
  let ?n = "length xs"
  let ?s = "\<lambda>k. (?n - k) mod ?n"
  from m have n: "0 < ?n" by (cases xs) auto
  have "cnj (\<Sum>k < ?n. xs ! k * cis (2 * pi * real k * real m / real ?n)) =
        (\<Sum>k < ?n. cnj (xs ! k) * cis (- (2 * pi * real k * real m / real ?n)))"
    by (simp add: cis_cnj)
  also have "\<dots> = (\<Sum>k < ?n. xs ! ?s k * cis (2 * pi * real (?s k) * real m / real ?n))"
  proof (intro sum.cong refl)
    fix k assume "k \<in> {..< ?n}"
    then have k: "k < ?n" by simp
    from h k have "xs ! ?s k = cnj (xs ! k)" by (simp add: herm_def)
    then show "cnj (xs ! k) * cis (- (2 * pi * real k * real m / real ?n)) =
          xs ! ?s k * cis (2 * pi * real (?s k) * real m / real ?n)"
      by (simp only: cis_mirror' [OF n k])
  qed
  also have "\<dots> = (\<Sum>j < ?n. xs ! j * cis (2 * pi * real j * real m / real ?n))"
    by (rule sum.reindex_bij_witness [where i = ?s and j = ?s])
       (use n in \<open>simp_all add: mirror_mirror\<close>)
  finally have "cnj (\<Sum>k < ?n. xs ! k * cis (2 * pi * real k * real m / real ?n)) =
        (\<Sum>j < ?n. xs ! j * cis (2 * pi * real j * real m / real ?n))" .
  then show ?thesis
    using m by (simp add: nth_idft)
qed

lemma herm_idft_real:
  assumes h: "herm xs"
  shows "map complex_of_real (map Re (idft xs)) = idft xs"
proof (rule nth_equalityI)
  show "length (map complex_of_real (map Re (idft xs))) = length (idft xs)" by simp
next
  fix m assume "m < length (map complex_of_real (map Re (idft xs)))"
  then have m: "m < length xs" by simp
  from herm_idft_cnj [OF h m] have "Im (idft xs ! m) = 0"
    by (simp add: complex_eq_iff)
  then show "map complex_of_real (map Re (idft xs)) ! m = idft xs ! m"
    using m by (simp add: complex_eq_iff)
qed

lemma dft_Re_idft: "herm xs \<Longrightarrow> dft (map complex_of_real (map Re (idft xs))) = xs"
  by (simp only: herm_idft_real dft_idft)

lemma Re_idft_dft: "map Re (idft (dft (map complex_of_real r))) = r"
  by (simp add: idft_dft comp_def)

section \<open>Coupling construction\<close>


lemma is_argsort_argsort: "is_argsort phase (argsort phase)"
  unfolding is_argsort_def argsort_def
  by (auto simp: sorted_sort_key)

lemma length_adjacent: "length (adjacent_couplings sidx) = length sidx - 1"
  by (auto simp: adjacent_couplings_def slice_to_def slice_from_def norm_idx_def)

lemma length_skip: "length (skip_couplings sidx) = length sidx - 2"
  by (auto simp: skip_couplings_def slice_to_def slice_from_def norm_idx_def)

lemma nth_adjacent:
  "i < length sidx - 1 \<Longrightarrow> adjacent_couplings sidx ! i = (sidx ! i, sidx ! (i + 1))"
  by (auto simp: adjacent_couplings_def slice_to_def slice_from_def norm_idx_def)

lemma nth_skip:
  "i < length sidx - 2 \<Longrightarrow> skip_couplings sidx ! i = (sidx ! i, sidx ! (i + 2))"
  by (auto simp: skip_couplings_def slice_to_def slice_from_def norm_idx_def)

lemma couplings_in_range:
  assumes "set sidx \<subseteq> {..<n}" and "c \<in> set (couplings_of sidx)"
  shows "fst c < n \<and> snd c < n"
proof -
  obtain j k where c: "c = (j, k)" by (cases c)
  from assms(2) have "j \<in> set sidx \<and> k \<in> set sidx"
    unfolding c couplings_of_def adjacent_couplings_def skip_couplings_def slice_to_def slice_from_def
    by (auto dest: set_zip_leftD set_zip_rightD in_set_takeD in_set_dropD)
  with assms(1) show ?thesis unfolding c by auto
qed

text \<open>
  C7. For a phase spectrum of dimension \<open>D \<ge> 2\<close> (those that \<^verbatim>\<open>MySP(D=D)\<close> stores have
  \<open>D \<ge> 3\<close>) and any index permutation \<open>sidx\<close> that sorts it, the coupling list is the \<open>D - 1\<close>
  adjacent pairs \<open>(sidx[i], sidx[i+1])\<close> followed by the \<open>D - 2\<close> skip-one pairs
  \<open>(sidx[i], sidx[i+2])\<close>, \<open>2D - 3\<close> couplings in all, and \<open>\<Delta>A\<close> holds \<open>phase[j] - phase[k]\<close> for
  each coupling \<open>(j, k)\<close>, in the same order.
\<close>

theorem couplings_structure:
  assumes srt: "is_argsort phase sidx" and D: "2 \<le> length phase"
  shows "couplings_of sidx = adjacent_couplings sidx @ skip_couplings sidx
       \<and> length (adjacent_couplings sidx) + 1 = length phase
       \<and> length (skip_couplings sidx) + 2 = length phase
       \<and> length (couplings_of sidx) + 3 = 2 * length phase
       \<and> (\<forall>i. i + 1 < length phase \<longrightarrow> adjacent_couplings sidx ! i = (sidx ! i, sidx ! (i + 1)))
       \<and> (\<forall>i. i + 2 < length phase \<longrightarrow> skip_couplings sidx ! i = (sidx ! i, sidx ! (i + 2)))
       \<and> (\<exists>DeltaA. DeltaA_of phase (couplings_of sidx) = Inr DeltaA
            \<and> length DeltaA = length (couplings_of sidx)
            \<and> (\<forall>i < length DeltaA.
                  DeltaA ! i = phase ! fst (couplings_of sidx ! i) - phase ! snd (couplings_of sidx ! i)))"
proof -
  have len: "length sidx = length phase" and st: "set sidx \<subseteq> {..<length phase}"
    using srt by (auto simp: is_argsort_def)
  have rng: "\<forall>c \<in> set (couplings_of sidx). fst c < length phase \<and> snd c < length phase"
    using couplings_in_range [OF st] by blast
  have dA: "DeltaA_of phase (couplings_of sidx) = Inr (map (\<lambda>c. phase ! fst c - phase ! snd c) (couplings_of sidx))"
    using rng by (simp add: DeltaA_of_def)
  have l1: "length (adjacent_couplings sidx) + 1 = length phase"
    using D len by (simp add: length_adjacent)
  have l2: "length (skip_couplings sidx) + 2 = length phase"
    using D len by (simp add: length_skip)
  have l3: "length (couplings_of sidx) + 3 = 2 * length phase"
    using l1 l2 by (simp add: couplings_of_def)
  have n1: "\<forall>i. i + 1 < length phase \<longrightarrow> adjacent_couplings sidx ! i = (sidx ! i, sidx ! (i + 1))"
    using len by (simp add: nth_adjacent)
  have n2: "\<forall>i. i + 2 < length phase \<longrightarrow> skip_couplings sidx ! i = (sidx ! i, sidx ! (i + 2))"
    using len by (simp add: nth_skip)
  have d: "\<exists>DeltaA. DeltaA_of phase (couplings_of sidx) = Inr DeltaA
            \<and> length DeltaA = length (couplings_of sidx)
            \<and> (\<forall>i < length DeltaA.
                  DeltaA ! i = phase ! fst (couplings_of sidx ! i) - phase ! snd (couplings_of sidx ! i))"
    unfolding dA by simp
  show ?thesis
    using l1 l2 l3 n1 n2 d by (simp add: couplings_of_def)
qed

theorem couplings_structure_witness:
  "is_argsort [0, 3, -3 ::real] (argsort [0, 3, -3]) \<and> (2::nat) \<le> length [0, 3, -3 :: real]
   \<and> couplings_of (argsort [0, 3, -3]) = [(2, 0), (0, 1), (2, 1)]
   \<and> length (couplings_of (argsort [0, 3, -3])) + 3 = 2 * length [0, 3, -3 :: real]
   \<and> DeltaA_of [0, 3, -3] (couplings_of (argsort [0, 3, -3])) = Inr [-3, -3, -6]"
proof -
  have s: "argsort [0, 3, -3 :: real] = [2, 0, 1]"
    by (simp add: argsort_def upt_rec)
  have h1: "is_argsort [0, 3, -3 ::real] (argsort [0, 3, -3])"
    unfolding s by (auto simp: is_argsort_def lessThan_def less_Suc_eq numeral_3_eq_3)
  have h2: "(2::nat) \<le> length [0, 3, -3 :: real]" by simp
  have c: "couplings_of [2, 0, 1] = [(2, 0), (0, 1), (2, 1)]"
    by (simp add: couplings_of_def adjacent_couplings_def skip_couplings_def slice_to_def slice_from_def norm_idx_def)
  have d: "DeltaA_of [0, 3, -3] [(2, 0), (0, 1), (2, 1)] = Inr [-3, -3, -6]"
    by (simp add: DeltaA_of_def)
  show ?thesis
    using couplings_structure [OF h1 h2] h1 unfolding s c d
    by simp
qed

section \<open>The decoding loop\<close>


text \<open>\<open>\<Delta>A\<close> and \<open>\<Delta>\<Phi>\<close> are comprehensions over one coupling list, so they have one length.\<close>

lemma Delta_lengths:
  assumes "DeltaA_of phase couplings = Inr DeltaA" and "DeltaPhi_of V couplings = Inr DeltaPhi"
  shows "length DeltaPhi = length DeltaA"
  using assms by (auto simp: DeltaA_of_def DeltaPhi_of_def split: if_splits)

lemma sum_list_map2_nth:
  fixes xs ys :: "real list"
  assumes "length xs = length ys"
  shows "sum_list (map2 (*) xs ys) = (\<Sum>i < length xs. xs ! i * ys ! i)"
proof -
  have "sum_list (map2 (*) xs ys) = (\<Sum>i = 0..<length (map2 (*) xs ys). map2 (*) xs ys ! i)"
    by (rule sum_list_sum_nth)
  also have "\<dots> = (\<Sum>i < length xs. xs ! i * ys ! i)"
    using assms by (intro sum.cong) auto
  finally show ?thesis .
qed

lemma x_increment_of_eq:
  assumes len: "length DeltaPhi = length DeltaA" and t: "1 \<le> t"
  shows "x_increment_of kappa DeltaPhi DeltaA t x =
         Inr (kappa * (\<Sum>i < length DeltaA. DeltaA ! i *
                (if \<bar>DeltaPhi ! i - DeltaA ! i * x\<bar> > 1 / real t then 0
                 else DeltaPhi ! i - DeltaA ! i * x)))"
proof -
  let ?resid = "map2 (-) DeltaPhi (map (\<lambda>d. d * x) DeltaA)"
  let ?masked = "map2 (\<lambda>r out. if out then 0 else r) ?resid (map (\<lambda>r. \<bar>r\<bar> > 1 / real t) ?resid)"
  have b: "broadcast2 (-) DeltaPhi (map (\<lambda>d. d * x) DeltaA) = Inr ?resid"
    using len by (simp add: broadcast2_def)
  have lm: "length ?masked = length DeltaA"
    using len by simp
  have nm: "?masked ! i = (if \<bar>DeltaPhi ! i - DeltaA ! i * x\<bar> > 1 / real t then 0
                 else DeltaPhi ! i - DeltaA ! i * x)" if "i < length DeltaA" for i
    using that len by simp
  have "np_dot DeltaA ?masked = Inr (\<Sum>i < length DeltaA. DeltaA ! i * ?masked ! i)"
    unfolding np_dot_def using lm sum_list_map2_nth [of DeltaA ?masked] by simp
  also have "(\<Sum>i < length DeltaA. DeltaA ! i * ?masked ! i) =
      (\<Sum>i < length DeltaA. DeltaA ! i *
                (if \<bar>DeltaPhi ! i - DeltaA ! i * x\<bar> > 1 / real t then 0
                 else DeltaPhi ! i - DeltaA ! i * x))"
    by (rule sum.cong [OF refl]) (simp only: nm lessThan_iff)
  finally have d: "np_dot DeltaA ?masked = Inr (\<Sum>i < length DeltaA. DeltaA ! i *
                (if \<bar>DeltaPhi ! i - DeltaA ! i * x\<bar> > 1 / real t then 0
                 else DeltaPhi ! i - DeltaA ! i * x))" .
  show ?thesis
    unfolding x_increment_of_def b using t d
    by (simp add: and_then_def Let_def)
qed

lemma x_increment_of_spec:
  assumes "length DeltaPhi = length DeltaA" and "1 \<le> t"
  shows "x_increment_of kappa DeltaPhi DeltaA t x = Inr (spec_increment kappa DeltaPhi DeltaA t x)"
  unfolding x_increment_of_eq [OF assms] spec_increment_def spec_resid_def Let_def ..

lemma decode_loop_step:
  assumes len: "length DeltaPhi = length DeltaA"
  shows "decode_loop kappa eps DeltaPhi DeltaA M (Suc t) (spec_x kappa DeltaPhi DeltaA t) =
     (if Suc t < M then
        if \<bar>spec_inc kappa DeltaPhi DeltaA (Suc t)\<bar> < eps
        then Inr (spec_x kappa DeltaPhi DeltaA (Suc t), Break (Suc t))
        else decode_loop kappa eps DeltaPhi DeltaA M (Suc (Suc t)) (spec_x kappa DeltaPhi DeltaA (Suc t))
      else Inr (spec_x kappa DeltaPhi DeltaA t, Exhausted))"
  by (subst decode_loop.simps)
     (simp add: x_increment_of_spec [OF len] and_then_def spec_inc_def Let_def)

lemma decode_loop_from:
  assumes len: "length DeltaPhi = length DeltaA"
  shows "(\<forall>s. 1 \<le> s \<and> s \<le> t \<longrightarrow> \<not> \<bar>spec_inc kappa DeltaPhi DeltaA s\<bar> < eps) \<Longrightarrow> t < M \<or> M = 0 \<and> t = 0 \<Longrightarrow>
     \<exists>T e. decode_loop kappa eps DeltaPhi DeltaA M (Suc t) (spec_x kappa DeltaPhi DeltaA t)
             = Inr (spec_x kappa DeltaPhi DeltaA T, e) \<and>
       (e = Break T \<and> 1 \<le> T \<and> T < M \<and> \<bar>spec_inc kappa DeltaPhi DeltaA T\<bar> < eps \<and>
          (\<forall>s. 1 \<le> s \<and> s < T \<longrightarrow> \<not> \<bar>spec_inc kappa DeltaPhi DeltaA s\<bar> < eps)
        \<or> e = Exhausted \<and> T = M - 1 \<and>
          (\<forall>s. 1 \<le> s \<and> s < M \<longrightarrow> \<not> \<bar>spec_inc kappa DeltaPhi DeltaA s\<bar> < eps))"
proof (induction "M - t" arbitrary: t)
  case 0
  then have "M = 0" "t = 0" by auto
  then show ?case
    by (subst decode_loop.simps) auto
next
  case (Suc d)
  let ?c = "\<lambda>s. \<bar>spec_inc kappa DeltaPhi DeltaA s\<bar> < eps"
  from Suc.hyps(2) Suc.prems(2) have tM: "t < M" by auto
  note eq = decode_loop_step [OF len, of kappa eps M t]
  show ?case
  proof (cases "Suc t < M")
    case False
    with tM have T: "t = M - 1" by auto
    have all: "\<forall>s. 1 \<le> s \<and> s < M \<longrightarrow> \<not> ?c s"
      using Suc.prems(1) T by auto
    show ?thesis
      using eq False T all by auto
  next
    case True
    show ?thesis
    proof (cases "?c (Suc t)")
      case c: True
      have "\<forall>s. 1 \<le> s \<and> s < Suc t \<longrightarrow> \<not> ?c s" using Suc.prems(1) by auto
      then show ?thesis
        using eq True c by auto
    next
      case c: False
      have p: "\<forall>s. 1 \<le> s \<and> s \<le> Suc t \<longrightarrow> \<not> ?c s"
        using Suc.prems(1) c by (auto simp: le_Suc_eq)
      have d: "d = M - Suc t" using Suc.hyps(2) by simp
      from Suc.hyps(1) [OF d p] True
      show ?thesis
        using eq True c by simp
    qed
  qed
qed

lemma decode_loop_passes:
  assumes len: "length DeltaPhi = length DeltaA"
  shows "T < M \<Longrightarrow> (\<forall>s. 1 \<le> s \<and> s \<le> T \<longrightarrow> \<not> \<bar>spec_inc kappa DeltaPhi DeltaA s\<bar> < eps) \<Longrightarrow>
     decode_loop kappa eps DeltaPhi DeltaA M 1 0 =
     decode_loop kappa eps DeltaPhi DeltaA M (Suc T) (spec_x kappa DeltaPhi DeltaA T)"
proof (induction T)
  case 0
  show ?case by simp
next
  case (Suc T)
  then have "decode_loop kappa eps DeltaPhi DeltaA M 1 0 =
     decode_loop kappa eps DeltaPhi DeltaA M (Suc T) (spec_x kappa DeltaPhi DeltaA T)"
    by simp
  also have "\<dots> = decode_loop kappa eps DeltaPhi DeltaA M (Suc (Suc T)) (spec_x kappa DeltaPhi DeltaA (Suc T))"
    using decode_loop_step [OF len, of kappa eps M T] Suc.prems by simp
  finally show ?case .
qed


text \<open>
  C1. With \<open>\<Delta>\<Phi>\<close> and \<open>\<Delta>A\<close> of one length (both are built from the same coupling list), the
  cell starts from \<open>x = 0\<close> at iteration \<open>1\<close> with \<open>\<kappa> = 0.1\<close>; iteration \<open>t \<ge> 1\<close> computes the
  increment \<open>\<kappa> \<cdot> \<Sum>\<^sub>i \<Delta>A\<^sub>i \<cdot> r\<^sub>i\<close>, where \<open>r\<^sub>i = \<Delta>\<Phi>\<^sub>i - \<Delta>A\<^sub>i \<cdot> x\<close> is taken from the current
  estimate and replaced by \<open>0\<close> when \<open>\<bar>r\<^sub>i\<bar> > 1/t\<close>, and the estimate becomes \<open>x\<close> plus that
  increment, with which the loop either stops or enters iteration \<open>t + 1\<close>. So, as long as
  no increment was below the threshold, the loop enters iteration \<open>T + 1\<close> with the estimate
  \<open>spec_x T\<close> that \<open>T\<close> such updates give from \<open>0\<close>.
\<close>

theorem decode_iteration:
  assumes "length DeltaPhi = length DeltaA" and "1 \<le> t"
  shows "decode DeltaPhi DeltaA = decode_loop (1/10) (1/10000) DeltaPhi DeltaA 100 1 0
       \<and> x_increment_of kappa DeltaPhi DeltaA t x =
           Inr (kappa * (\<Sum>i < length DeltaA. DeltaA ! i *
                  (if \<bar>DeltaPhi ! i - DeltaA ! i * x\<bar> > 1 / real t then 0
                   else DeltaPhi ! i - DeltaA ! i * x)))
       \<and> (t < M \<longrightarrow>
            decode_loop kappa eps DeltaPhi DeltaA M t x =
            (let increment = kappa * (\<Sum>i < length DeltaA. DeltaA ! i *
                  (if \<bar>DeltaPhi ! i - DeltaA ! i * x\<bar> > 1 / real t then 0
                   else DeltaPhi ! i - DeltaA ! i * x))
             in if \<bar>increment\<bar> < eps then Inr (x + increment, Break t)
                else decode_loop kappa eps DeltaPhi DeltaA M (t + 1) (x + increment)))
       \<and> (T < M \<and> (\<forall>s. 1 \<le> s \<and> s \<le> T \<longrightarrow> \<not> \<bar>spec_inc kappa DeltaPhi DeltaA s\<bar> < eps) \<longrightarrow>
            decode_loop kappa eps DeltaPhi DeltaA M 1 0 =
            decode_loop kappa eps DeltaPhi DeltaA M (Suc T) (spec_x kappa DeltaPhi DeltaA T))"
proof -
  note inc = x_increment_of_eq [OF assms, of kappa x]
  have loop: "t < M \<longrightarrow>
            decode_loop kappa eps DeltaPhi DeltaA M t x =
            (let increment = kappa * (\<Sum>i < length DeltaA. DeltaA ! i *
                  (if \<bar>DeltaPhi ! i - DeltaA ! i * x\<bar> > 1 / real t then 0
                   else DeltaPhi ! i - DeltaA ! i * x))
             in if \<bar>increment\<bar> < eps then Inr (x + increment, Break t)
                else decode_loop kappa eps DeltaPhi DeltaA M (t + 1) (x + increment))"
    by (subst decode_loop.simps) (simp add: inc and_then_def Let_def)
  have traj: "T < M \<and> (\<forall>s. 1 \<le> s \<and> s \<le> T \<longrightarrow> \<not> \<bar>spec_inc kappa DeltaPhi DeltaA s\<bar> < eps) \<longrightarrow>
            decode_loop kappa eps DeltaPhi DeltaA M 1 0 =
            decode_loop kappa eps DeltaPhi DeltaA M (Suc T) (spec_x kappa DeltaPhi DeltaA T)"
    using decode_loop_passes [OF assms(1), of T M kappa eps] by blast
  show ?thesis
    using inc loop traj by (simp add: decode_def)
qed

theorem decode_iteration_witness:
  "length [1/2, 3 :: real] = length [1, 2 :: real] \<and> (1::nat) \<le> 1
   \<and> x_increment_of (1/10) [1/2, 3] [1, 2] 1 0 = Inr (1/20)
   \<and> decode_loop (1/10) (1/10000) [1/2, 3] [1, 2] 100 1 0 =
     decode_loop (1/10) (1/10000) [1/2, 3] [1, 2] 100 2 (1/20)"
proof -
  have h1: "length [1/2, 3 :: real] = length [1, 2 :: real]" by simp
  have h2: "(1::nat) \<le> 1" by simp
  have s: "{..<Suc (Suc 0)} = {0, Suc 0}" by auto
  show ?thesis
    using decode_iteration [OF h1 h2, where kappa = "1/10" and x = 0 and M = 100 and eps = "1/10000"
        and T = 0]
    by (simp add: s Let_def numeral_2_eq_2)
qed

text \<open>
  C2. With \<open>\<Delta>\<Phi>\<close> and \<open>\<Delta>A\<close> of one length the loop returns an estimate for every step size
  \<open>\<kappa>\<close>, threshold \<open>\<epsilon>\<close> and bound \<open>M\<close>, and the estimate is the one reached after \<open>T\<close>
  iterations: either it stopped by \<^verbatim>\<open>break\<close> in iteration \<open>T < M\<close>, the first whose increment
  is below \<open>\<epsilon>\<close> in magnitude, or no increment of the iterations \<open>1, \<dots>, M - 1\<close> was below
  \<open>\<epsilon>\<close> and it ran them all (the counter of \<^verbatim>\<open>range(1, max_iters)\<close> stops short of \<open>M\<close>), returning
  the last estimate. The cell runs it with \<open>\<epsilon> = 0.0001\<close> and \<open>M = 100\<close>.
\<close>

theorem decode_terminates:
  assumes "length DeltaPhi = length DeltaA"
  shows "decode DeltaPhi DeltaA = decode_loop (1/10) (1/10000) DeltaPhi DeltaA 100 1 0
       \<and> (\<exists>T e. decode_loop kappa eps DeltaPhi DeltaA M 1 0
                   = Inr (spec_x kappa DeltaPhi DeltaA T, e) \<and>
             (e = Break T \<and> 1 \<le> T \<and> T < M \<and> \<bar>spec_inc kappa DeltaPhi DeltaA T\<bar> < eps \<and>
                (\<forall>s. 1 \<le> s \<and> s < T \<longrightarrow> \<not> \<bar>spec_inc kappa DeltaPhi DeltaA s\<bar> < eps)
              \<or> e = Exhausted \<and> T = M - 1 \<and>
                (\<forall>s. 1 \<le> s \<and> s < M \<longrightarrow> \<not> \<bar>spec_inc kappa DeltaPhi DeltaA s\<bar> < eps)))"
proof -
  have "0 < M \<or> M = 0 \<and> (0::nat) = 0" by auto
  from decode_loop_from [OF assms _ this, of kappa eps]
  show ?thesis by (simp add: decode_def)
qed

theorem decode_terminates_witness:
  "length [0 :: real] = length [1 :: real]
   \<and> (\<exists>T e. decode [0] [1] = Inr (spec_x (1/10) [0] [1] T, e) \<and> T < 100)"
proof -
  have h: "length [0 :: real] = length [1 :: real]" by simp
  from decode_terminates [OF h, of "1/10" "1/10000" 100]
  show ?thesis by auto
qed

section \<open>The algebra of \<^verbatim>\<open>MySP\<close>: errors and commutativity\<close>


lemma and_then_Inr [simp]: "and_then (Inr x) f = f x"
  by (simp add: and_then_def)

lemma and_then_Inl [simp]: "and_then (Inl e) f = Inl e"
  by (simp add: and_then_def)

lemma fft_Inr: "xs \<noteq> [] \<Longrightarrow> fft xs = Inr (dft xs)"
  by (simp add: fft_def)

lemma ifft_Inr: "xs \<noteq> [] \<Longrightarrow> ifft xs = Inr (idft xs)"
  by (simp add: ifft_def)

lemma dft_nonempty [simp]: "dft xs = [] \<longleftrightarrow> xs = []"
  by (simp add: dft_def)

lemma idft_nonempty [simp]: "idft xs = [] \<longleftrightarrow> xs = []"
  by (simp add: idft_def)

lemma broadcast2_same:
  "length xs = length ys \<Longrightarrow> broadcast2 f xs ys = Inr (map2 f xs ys)"
  by (simp add: broadcast2_def)

lemma broadcast2_mismatch:
  "length xs \<noteq> length ys \<Longrightarrow> length xs \<noteq> 1 \<Longrightarrow> length ys \<noteq> 1 \<Longrightarrow>
   broadcast2 f xs ys = Inl ValueError"
  by (simp add: broadcast2_def)

lemma broadcast2_mult_commute:
  fixes xs ys :: "complex list"
  shows "broadcast2 (*) xs ys = broadcast2 (*) ys xs"
proof -
  have "map2 (*) xs ys = map2 (*) ys xs" if "length xs = length ys"
    using that by (intro nth_equalityI) (simp_all add: mult.commute)
  then show ?thesis
    by (auto simp: broadcast2_def mult.commute)
qed

lemma collect_map_Inr:
  "(\<And>x. x \<in> set xs \<Longrightarrow> f x = Inr (g x)) \<Longrightarrow> collect (map f xs) = Inr (map g xs)"
  by (induction xs) simp_all

text \<open>
  C10. Binding is commutative: \<^verbatim>\<open>v.bind(w)\<close> and \<^verbatim>\<open>w.bind(v)\<close> give the same result, for
  operands of the same dimension and, with the same error or broadcast, for any other pair.
\<close>

theorem bind_commute: "bind x y = bind y x"
proof (cases "sp_v x = [] \<or> sp_v y = []")
  case True
  then show ?thesis
    by (auto simp: bind_def fft_def)
next
  case False
  then show ?thesis
    by (simp add: bind_def fft_def broadcast2_mult_commute [of "dft (map complex_of_real (sp_v x))"])
qed

lemma similarity_mismatch:
  "length (sp_v x) \<noteq> length (sp_v y) \<Longrightarrow> similarity x y = Inl ValueError"
  by (simp add: similarity_def np_dot_def)

lemma bind_mismatch:
  assumes "length (sp_v x) \<noteq> length (sp_v y)" "length (sp_v x) \<noteq> 1" "length (sp_v y) \<noteq> 1"
  shows "bind x y = Inl ValueError"
  using assms by (simp add: bind_def fft_def broadcast2_mismatch)

lemma unbind_mismatch:
  assumes "length (sp_v x) \<noteq> length (sp_v y)" "length (sp_v x) \<noteq> 1" "length (sp_v y) \<noteq> 1"
  shows "unbind x y = Inl ValueError"
  using assms by (simp add: unbind_def fft_def broadcast2_mismatch)

lemma bundle_mismatch:
  assumes "length (sp_v x) \<noteq> length (sp_v y)" "length (sp_v x) \<noteq> 1" "length (sp_v y) \<noteq> 1"
  shows "bundle_sp x y = Inl ValueError"
  using assms by (simp add: bundle_sp_def broadcast2_mismatch)

lemma broadcast2_one:
  assumes "length xs = 1 \<or> length ys = 1"
  shows "\<exists>zs. broadcast2 f xs ys = Inr zs \<and>
              length zs = (if length xs = 1 then length ys else length xs)"
  using assms by (auto simp: broadcast2_def)

lemma collect_not_ValueError:
  "(\<And>r. r \<in> set rs \<Longrightarrow> r \<noteq> Inl ValueError) \<Longrightarrow> collect rs \<noteq> Inl ValueError"
proof (induction rs)
  case Nil
  show ?case by simp
next
  case (Cons r rs)
  then have "r \<noteq> Inl ValueError" "collect rs \<noteq> Inl ValueError" by auto
  then show ?case by (auto simp: and_then_def split: sum.splits)
qed

lemma broadcast2_cdiv_entries:
  assumes "broadcast2 cdiv xs ys = Inr q" and "r \<in> set q"
  shows "r \<noteq> Inl ValueError"
  using assms
  by (auto simp: broadcast2_def cdiv_def split: if_splits dest!: set_zip_leftD in_set_zipE)

lemma collect_length: "collect rs = Inr zs \<Longrightarrow> length zs = length rs"
  by (induction rs arbitrary: zs) (auto simp: and_then_def split: sum.splits)

text \<open>
  C9 as amended. \<^verbatim>\<open>similarity\<close> raises \<^verbatim>\<open>ValueError\<close> whenever the operands' lengths differ.
  \<^verbatim>\<open>bind\<close>, \<^verbatim>\<open>unbind\<close> and \<^verbatim>\<open>bundle\<close> raise it when the lengths differ and neither is one;
  an operand of length one next to a non-empty one is broadcast and no error is raised.
\<close>

theorem dimension_mismatch:
  assumes "length (sp_v x) \<noteq> length (sp_v y)"
  shows "similarity x y = Inl ValueError
       \<and> (length (sp_v x) \<noteq> 1 \<and> length (sp_v y) \<noteq> 1 \<longrightarrow>
            bind x y = Inl ValueError \<and> unbind x y = Inl ValueError \<and>
            bundle_sp x y = Inl ValueError)
       \<and> ((length (sp_v x) = 1 \<or> length (sp_v y) = 1) \<and> sp_v x \<noteq> [] \<and> sp_v y \<noteq> [] \<longrightarrow>
            (\<exists>r. bind x y = Inr r) \<and> unbind x y \<noteq> Inl ValueError \<and>
            (\<exists>r. bundle_sp x y = Inr r))"
proof -
  have one: "(\<exists>r. bind x y = Inr r) \<and> unbind x y \<noteq> Inl ValueError \<and> (\<exists>r. bundle_sp x y = Inr r)"
    if l: "length (sp_v x) = 1 \<or> length (sp_v y) = 1" and nx: "sp_v x \<noteq> []" and ny: "sp_v y \<noteq> []"
  proof -
    let ?X = "dft (map complex_of_real (sp_v x))" and ?Y = "dft (map complex_of_real (sp_v y))"
    have l': "length ?X = 1 \<or> length ?Y = 1" using l by simp
    from broadcast2_one [OF l', of "(*)"] obtain zs where
      zs: "broadcast2 (*) ?X ?Y = Inr zs" "length zs = (if length ?X = 1 then length ?Y else length ?X)"
      by blast
    have "zs \<noteq> []" using zs(2) nx ny by (auto split: if_splits)
    then have b: "\<exists>r. bind x y = Inr r"
      using nx ny zs(1) by (simp add: bind_def fft_def ifft_def)
    from broadcast2_one [OF l', of cdiv] obtain q where
      q: "broadcast2 cdiv ?X ?Y = Inr q" "length q = (if length ?X = 1 then length ?Y else length ?X)"
      by blast
    have qn: "q \<noteq> []" using q(2) nx ny by (auto split: if_splits)
    have cq: "collect q \<noteq> Inl ValueError"
      using broadcast2_cdiv_entries [OF q(1)] by (rule collect_not_ValueError)
    have u: "unbind x y \<noteq> Inl ValueError"
    proof (cases "collect q")
      case (Inl e)
      with cq show ?thesis
        using nx ny q(1) by (simp add: unbind_def fft_def)
    next
      case (Inr c)
      with collect_length [OF Inr] qn have "c \<noteq> []" by auto
      with Inr show ?thesis
        using nx ny q(1) by (simp add: unbind_def fft_def ifft_def)
    qed
    from broadcast2_one [OF l, of "(+)"] have "\<exists>r. bundle_sp x y = Inr r"
      by (auto simp: bundle_sp_def)
    with b u show ?thesis by blast
  qed
  show ?thesis
    using assms one
    by (simp add: similarity_mismatch bind_mismatch unbind_mismatch bundle_mismatch)
qed

theorem dimension_mismatch_witness:
  "length (sp_v (MySP_from [1, 2])) \<noteq> length (sp_v (MySP_from [1, 2, 3]))
   \<and> similarity (MySP_from [1, 2]) (MySP_from [1, 2, 3]) = Inl ValueError
   \<and> bind (MySP_from [1, 2]) (MySP_from [1, 2, 3]) = Inl ValueError
   \<and> unbind (MySP_from [1, 2]) (MySP_from [1, 2, 3]) = Inl ValueError
   \<and> bundle_sp (MySP_from [1, 2]) (MySP_from [1, 2, 3]) = Inl ValueError"
proof -
  have h: "length (sp_v (MySP_from [1, 2])) \<noteq> length (sp_v (MySP_from [1, 2, 3]))"
    by (simp add: MySP_from_def)
  from dimension_mismatch [OF h] h show ?thesis
    by (simp add: MySP_from_def)
qed

text \<open>
  C9 as stated fails: operands of lengths one and two differ in dimension, and \<^verbatim>\<open>bundle\<close> and
  \<^verbatim>\<open>bind\<close> return a vector instead of raising.
\<close>

theorem dimension_mismatch_counterexample:
  "length (sp_v (MySP_from [1])) \<noteq> length (sp_v (MySP_from [1, 2]))
   \<and> bundle_sp (MySP_from [1]) (MySP_from [1, 2]) = Inr (MySP_from [2, 3])
   \<and> bind (MySP_from [2]) (MySP_from [1, 0]) = Inr (MySP_from [2, 0])"
proof -
  have s: "{..<Suc (Suc 0)} = {0, Suc 0}" by auto
  have b: "bundle_sp (MySP_from [1]) (MySP_from [1, 2]) = Inr (MySP_from [2, 3])"
    by (simp add: bundle_sp_def broadcast2_def MySP_from_def)
  have d1: "dft [2] = [2]" by (simp add: dft_def)
  have d2: "dft [1, 0] = [1, 1]" by (simp add: dft_def s upt_rec numeral_2_eq_2)
  have i: "idft [2, 2] = [2, 0]" by (simp add: idft_def s upt_rec numeral_2_eq_2)
  have "bind (MySP_from [2]) (MySP_from [1, 0]) = Inr (MySP_from [2, 0])"
    by (simp add: bind_def fft_def ifft_def MySP_from_def d1 d2 i broadcast2_def)
  with b show ?thesis by (simp add: MySP_from_def)
qed

section \<open>Unitary projection and the round trip of binding\<close>


lemma exp_i_cis: "exp (\<i> * complex_of_real t) = cis t"
  by (simp add: cis_conv_exp)

lemma Arg_cis_Arg: "Arg (cis (Arg z)) = Arg z"
  by (rule cis_Arg_unique) (simp_all add: sgn_eq Arg_bounded)

lemma Arg_cis: "- pi < t \<Longrightarrow> t \<le> pi \<Longrightarrow> Arg (cis t) = t"
  by (rule cis_Arg_unique) (simp_all add: sgn_eq)

lemma cis_Arg_cnj: "cis (Arg (cnj z)) = cnj (cis (Arg z))"
proof (cases "z = 0")
  case True
  then show ?thesis by (simp add: Arg_zero)
next
  case False
  then have "cis (Arg (cnj z)) = sgn (cnj z)" "cis (Arg z) = sgn z"
    by (simp_all add: cis_Arg)
  then show ?thesis by (simp add: sgn_eq)
qed

lemma herm_nth: "herm xs \<Longrightarrow> k < length xs \<Longrightarrow> xs ! ((length xs - k) mod length xs) = cnj (xs ! k)"
  by (simp add: herm_def)

lemma herm_map:
  assumes h: "herm xs" and f: "\<And>z. f (cnj z) = cnj (f z)"
  shows "herm (map f xs)"
  unfolding herm_def
proof (intro allI impI)
  fix k assume "k < length (map f xs)"
  then have k: "k < length xs" by simp
  then have "0 < length xs" by (cases xs) auto
  then have k': "(length xs - k) mod length xs < length xs" by simp
  show "map f xs ! ((length (map f xs) - k) mod length (map f xs)) = cnj (map f xs ! k)"
    using k k' herm_nth [OF h k] by (simp add: f)
qed

lemma herm_map2:
  assumes hx: "herm xs" and hy: "herm ys" and len: "length xs = length ys"
    and f: "\<And>z w. f (cnj z) (cnj w) = cnj (f z w)"
  shows "herm (map2 f xs ys)"
  unfolding herm_def
proof (intro allI impI)
  fix k assume "k < length (map2 f xs ys)"
  then have k: "k < length xs" and ky: "k < length ys" using len by simp_all
  then have "0 < length xs" by (cases xs) auto
  then have k': "(length xs - k) mod length xs < length xs" by simp
  show "map2 f xs ys ! ((length (map2 f xs ys) - k) mod length (map2 f xs ys)) = cnj (map2 f xs ys ! k)"
    using k k' herm_nth [OF hx k] herm_nth [OF hy ky] len by (simp add: f)
qed

text \<open>
  C5. For every non-empty real vector \<open>v\<close>, \<^verbatim>\<open>v.unitary()\<close> returns a vector each of whose
  Fourier coefficients has modulus one and the phase (\<^verbatim>\<open>angle\<close>) of the corresponding Fourier
  coefficient of \<open>v\<close>; exactly so over the reals.
\<close>

theorem unitary_unit_modulus:
  assumes "sp_v self \<noteq> []"
  shows "\<exists>u c c'. unitary self = Inr u
           \<and> fft (map complex_of_real (sp_v self)) = Inr c
           \<and> fft (map complex_of_real (sp_v u)) = Inr c'
           \<and> length c' = length c \<and> length c = length (sp_v self)
           \<and> (\<forall>k < length c. cmod (c' ! k) = 1 \<and> Arg (c' ! k) = Arg (c ! k))"
proof -
  let ?c = "dft (map complex_of_real (sp_v self))"
  let ?U = "map (\<lambda>z. cis (Arg z)) ?c"
  let ?u = "MySP_from (map Re (idft ?U))"
  have hU: "herm ?U"
    by (rule herm_map [OF herm_dft_real]) (rule cis_Arg_cnj)
  have un: "unitary self = Inr ?u"
    using assms by (simp add: unitary_def fft_def ifft_def exp_i_cis)
  have c': "dft (map complex_of_real (sp_v ?u)) = ?U"
    using dft_Re_idft [OF hU] by (simp add: MySP_from_def)
  have f1: "fft (map complex_of_real (sp_v self)) = Inr ?c"
    using assms by (simp add: fft_def)
  have f2: "fft (map complex_of_real (sp_v ?u)) = Inr ?U"
    using assms c' by (simp add: fft_def MySP_from_def)
  have "\<forall>k < length ?c. cmod (?U ! k) = 1 \<and> Arg (?U ! k) = Arg (?c ! k)"
    by (simp add: Arg_cis_Arg)
  with un f1 f2 show ?thesis
    by (intro exI [of _ ?u] exI [of _ ?c] exI [of _ ?U]) simp
qed

theorem unitary_unit_modulus_witness:
  "sp_v (MySP_from [3]) \<noteq> []
   \<and> (\<exists>u c c'. unitary (MySP_from [3]) = Inr u
           \<and> fft (map complex_of_real (sp_v (MySP_from [3]))) = Inr c
           \<and> fft (map complex_of_real (sp_v u)) = Inr c'
           \<and> length c' = length c \<and> length c = length (sp_v (MySP_from [3]))
           \<and> (\<forall>k < length c. cmod (c' ! k) = 1 \<and> Arg (c' ! k) = Arg (c ! k)))"
proof -
  have h: "sp_v (MySP_from [3]) \<noteq> []" by (simp add: MySP_from_def)
  from unitary_unit_modulus [OF h] h show ?thesis by blast
qed

text \<open>
  C4. For unitary \<open>v\<close> and \<open>w\<close> of the same dimension, \<^verbatim>\<open>v.bind(w).unbind(w)\<close> returns the
  values of \<open>v\<close>; exactly so over the reals.
\<close>

theorem bind_unbind_roundtrip:
  assumes uv: "is_unitary x" and uw: "is_unitary w"
    and len: "length (sp_v x) = length (sp_v w)" and ne: "sp_v x \<noteq> []"
  shows "\<exists>b r. bind x w = Inr b \<and> unbind b w = Inr r \<and> sp_v r = sp_v x"
proof -
  let ?X = "dft (map complex_of_real (sp_v x))" and ?W = "dft (map complex_of_real (sp_v w))"
  let ?P = "map2 (*) ?X ?W"
  let ?b = "MySP_from (map Re (idft ?P))"
  have new: "sp_v w \<noteq> []" using len ne by auto
  have lXW: "length ?X = length ?W" using len by simp
  have hP: "herm ?P"
    by (rule herm_map2 [OF herm_dft_real herm_dft_real lXW]) simp
  have Pne: "?P \<noteq> []" using ne new by (cases "sp_v x"; cases "sp_v w") (auto simp: dft_def upt_rec)
  have b: "bind x w = Inr ?b"
    using ne new Pne lXW by (simp add: bind_def fft_def ifft_def broadcast2_same)
  have dP: "dft (map complex_of_real (sp_v ?b)) = ?P"
    using dft_Re_idft [OF hP] by (simp add: MySP_from_def)
  have bne: "sp_v ?b \<noteq> []" using Pne by (simp add: MySP_from_def)
  have Wnz: "c \<noteq> 0" if "c \<in> set ?W" for c
    using uw that by (auto simp: is_unitary_def)
  have lPW: "length ?P = length ?W" using lXW by simp
  have q: "broadcast2 cdiv ?P ?W = Inr (map2 cdiv ?P ?W)"
    using lPW by (rule broadcast2_same)
  have "collect (map2 cdiv ?P ?W) = Inr (map2 (/) ?P ?W)"
    by (rule collect_map_Inr) (auto simp: cdiv_def dest!: set_zip_rightD Wnz)
  moreover have "map2 (/) ?P ?W = ?X"
  proof (rule nth_equalityI)
    show "length (map2 (/) ?P ?W) = length ?X" using lXW by simp
  next
    fix k assume "k < length (map2 (/) ?P ?W)"
    then have k: "k < length ?X" "k < length ?W" using lXW by simp_all
    then have "?W ! k \<noteq> 0" using Wnz [of "?W ! k"] by (simp only: nth_mem not_False_eq_True)
    then show "map2 (/) ?P ?W ! k = ?X ! k" using k by simp
  qed
  ultimately have cq: "collect (map2 cdiv ?P ?W) = Inr ?X" by simp
  have Xne: "?X \<noteq> []" using ne by simp
  have r: "unbind ?b w = Inr (MySP_from (map Re (idft ?X)))"
    using bne new ne unfolding unbind_def
    by (simp add: fft_def dP q cq ifft_def)
  have "map Re (idft ?X) = sp_v x" by (rule Re_idft_dft)
  with b r show ?thesis by (simp add: MySP_from_def)
qed

theorem bind_unbind_roundtrip_witness:
  "is_unitary (MySP_from [1, 0]) \<and> is_unitary (MySP_from [0, 1])
   \<and> length (sp_v (MySP_from [1, 0])) = length (sp_v (MySP_from [0, 1]))
   \<and> sp_v (MySP_from [1, 0]) \<noteq> []
   \<and> (\<exists>b r. bind (MySP_from [1, 0]) (MySP_from [0, 1]) = Inr b
            \<and> unbind b (MySP_from [0, 1]) = Inr r \<and> sp_v r = [1, 0])"
proof -
  have s: "{..<Suc (Suc 0)} = {0, Suc 0}" by auto
  have d1: "dft [1, 0] = [1, 1]" by (simp add: dft_def s upt_rec numeral_2_eq_2)
  have c: "cis (- pi) = - 1" by (simp add: complex_eq_iff)
  have d2: "dft [0, 1] = [1, - 1]" by (simp add: dft_def s upt_rec numeral_2_eq_2 c)
  have u1: "is_unitary (MySP_from [1, 0])" by (simp add: is_unitary_def MySP_from_def d1)
  have u2: "is_unitary (MySP_from [0, 1])" by (simp add: is_unitary_def MySP_from_def d2)
  have l: "length (sp_v (MySP_from [1, 0])) = length (sp_v (MySP_from [0, 1]))"
    by (simp add: MySP_from_def)
  have n: "sp_v (MySP_from [1, 0]) \<noteq> []" by (simp add: MySP_from_def)
  from bind_unbind_roundtrip [OF u1 u2 l n] u1 u2 l n show ?thesis
    by (simp add: MySP_from_def)
qed

section \<open>The random construction\<close>


lemma MySP_init_small:
  assumes "length samples = n" and "n < 3"
  shows "\<exists>e. MySP_init n samples = Inl e"
proof -
  from assms consider "n = 0" "samples = []" | s where "n = 1" "samples = [s]"
    | s t where "n = 2" "samples = [s, t]"
    by (cases samples; cases "tl samples"; cases "tl (tl samples)") (auto simp: numeral_3_eq_3 numeral_2_eq_2)
  then show ?thesis
  proof cases
    case 1
    then show ?thesis
      by (simp add: MySP_init_def set_slice_from_def slice_def norm_idx_def set_item_def)
  next
    case 2
    then show ?thesis
      by (simp add: MySP_init_def set_slice_from_def slice_def norm_idx_def)
  next
    case 3
    then show ?thesis
      by (simp add: MySP_init_def set_slice_from_def slice_def norm_idx_def)
  qed
qed

text \<open>The phases after the slice assignment \<^verbatim>\<open>angles[-D2+1:] = flip(-angles[1:D2])\<close>.\<close>

lemma mirror_slice:
  fixes A0 :: "real list"
  assumes n: "3 \<le> length A0"
  defines "D2 \<equiv> (length A0 + 1) div 2"
  shows "\<exists>A1. set_slice_from A0 (- int D2 + 1) (rev (map uminus (slice A0 1 (int D2)))) = Inr A1
           \<and> length A1 = length A0
           \<and> (\<forall>i < length A0. A1 ! i = (if i < length A0 - D2 + 1 then A0 ! i else - A0 ! (length A0 - i)))"
proof -
  let ?n = "length A0"
  let ?lo = "?n - D2 + 1"
  have D2: "2 \<le> D2" "D2 \<le> ?n" "2 * D2 \<le> ?n + 1" using n by (auto simp: D2_def)
  have sl: "slice A0 1 (int D2) = take (D2 - 1) (drop 1 A0)"
    using D2 n by (simp add: slice_def norm_idx_def)
  let ?ys = "rev (map uminus (take (D2 - 1) (drop 1 A0)))"
  have ly: "length ?ys = D2 - 1" using D2 by simp
  have lo: "norm_idx (- int D2 + 1) ?n = ?lo"
    using D2 by (auto simp: norm_idx_def)
  have eq: "set_slice_from A0 (- int D2 + 1) ?ys = Inr (take ?lo A0 @ ?ys)"
    unfolding set_slice_from_def lo Let_def using ly D2 by simp
  have len: "length (take ?lo A0 @ ?ys) = ?n" using D2 by simp
  have nth: "(take ?lo A0 @ ?ys) ! i = (if i < ?lo then A0 ! i else - A0 ! (?n - i))" if i: "i < ?n" for i
  proof (cases "i < ?lo")
    case True
    then show ?thesis using D2 by (simp add: nth_append)
  next
    case False
    let ?j = "i - ?lo"
    have j: "?j < D2 - 1" using False i D2 by auto
    have "(take ?lo A0 @ ?ys) ! i = ?ys ! ?j"
      using False D2 by (simp add: nth_append)
    also have "\<dots> = map uminus (take (D2 - 1) (drop 1 A0)) ! (D2 - 1 - Suc ?j)"
      using j D2 by (subst rev_nth) simp_all
    also have "\<dots> = - A0 ! (1 + (D2 - 1 - Suc ?j))"
      using j D2 by simp
    also have "1 + (D2 - 1 - Suc ?j) = ?n - i"
      using j False i D2 by auto
    finally show ?thesis using False by simp
  qed
  show ?thesis
    unfolding sl eq using len nth by simp
qed

lemma phase_symmetry_all:
  fixes ph :: "real list"
  assumes z: "ph ! 0 = 0"
    and m: "\<forall>k. 1 \<le> k \<and> 2 * k < length ph \<longrightarrow> ph ! (length ph - k) = - ph ! k"
    and e: "even (length ph) \<longrightarrow> ph ! (length ph div 2) = 0"
    and k: "k < length ph"
  shows "ph ! ((length ph - k) mod length ph) = - ph ! k"
proof -
  let ?n = "length ph"
  consider "k = 0" | "1 \<le> k" "2 * k < ?n" | "2 * k = ?n" | "?n < 2 * k" by linarith
  then show ?thesis
  proof cases
    case 1
    then show ?thesis using z by simp
  next
    case 2
    then show ?thesis using m k by simp
  next
    case 3
    have "even (2 * k)" by simp
    with 3 have "?n - k = k" "even ?n" "?n div 2 = k" by auto
    then show ?thesis using e k by simp
  next
    case 4
    let ?k' = "?n - k"
    have "1 \<le> ?k'" "2 * ?k' < ?n" "?n - ?k' = k" using 4 k by auto
    with m have "ph ! k = - ph ! ?k'" by metis
    then show ?thesis using k 4 by simp
  qed
qed

lemma herm_cis_phase:
  assumes "\<forall>k < length ph. ph ! ((length ph - k) mod length ph) = - ph ! k"
  shows "herm (map cis ph)"
  unfolding herm_def
proof (intro allI impI)
  fix k assume "k < length (map cis ph)"
  then have k: "k < length ph" by simp
  then have "0 < length ph" by (cases ph) auto
  then have "(length ph - k) mod length ph < length ph" by simp
  then show "map cis ph ! ((length (map cis ph) - k) mod length (map cis ph)) = cnj (map cis ph ! k)"
    using k assms by (simp add: cis_cnj)
qed

lemma MySP_init_large:
  assumes len: "length samples = n" and n: "3 \<le> n"
  shows "\<exists>ph. MySP_init n samples =
             Inr \<lparr>sp_D = n, sp_v = map Re (idft (map cis ph)), sp_a = Some ph\<rparr>
           \<and> length ph = n \<and> ph ! 0 = 0
           \<and> (\<forall>k. 1 \<le> k \<and> 2 * k < n \<longrightarrow> ph ! (n - k) = - ph ! k)
           \<and> (even n \<longrightarrow> ph ! (n div 2) = 0)"
proof -
  let ?A0 = "map (\<lambda>s. s * 2) samples"
  let ?D2 = "(n + 1) div 2"
  have lA: "length ?A0 = n" using len by simp
  from mirror_slice [of ?A0] n lA obtain A1 where
    A1: "set_slice_from ?A0 (- int ?D2 + 1) (rev (map uminus (slice ?A0 1 (int ?D2)))) = Inr A1"
    and lA1: "length A1 = n"
    and nA1: "\<forall>i < n. A1 ! i = (if i < n - ?D2 + 1 then ?A0 ! i else - ?A0 ! (n - i))"
    by auto
  let ?A2 = "A1[0 := 0]"
  have s2: "set_item A1 0 0 = Inr ?A2"
    using lA1 n by (simp add: set_item_def)
  let ?A3 = "if n mod 2 = 0 then ?A2[?D2 := 0] else ?A2"
  have s3: "(if n mod 2 = 0 then set_item ?A2 (int ?D2) 0 else Inr ?A2) = Inr ?A3"
    using lA1 n by (simp add: set_item_def)
  have l3: "length ?A3 = n" using lA1 by simp
  have ne3: "map (\<lambda>t. exp (\<i> * complex_of_real t)) ?A3 \<noteq> []"
    using l3 n by (cases ?A3) auto
  have mp: "map (\<lambda>t. exp (\<i> * complex_of_real t)) ?A3 = map cis ?A3"
    by (simp only: exp_i_cis)
  have init: "MySP_init n samples =
      Inr \<lparr>sp_D = n, sp_v = map Re (idft (map cis ?A3)), sp_a = Some ?A3\<rparr>"
    unfolding MySP_init_def Let_def A1 and_then_Inr s2 s3
    using ne3 unfolding mp by (simp add: ifft_def)
  have z: "?A3 ! 0 = 0"
    using lA1 n by simp
  have m: "?A3 ! (n - k) = - ?A3 ! k" if k: "1 \<le> k" "2 * k < n" for k
  proof -
    have klo: "k < n - ?D2 + 1" using k by auto
    have khi: "\<not> n - k < n - ?D2 + 1" using k by auto
    have kn: "k < n" "n - k < n" using k by auto
    have "A1 ! (n - k) = - A1 ! k"
      using nA1 klo khi kn k by simp
    moreover have "?A3 ! (n - k) = A1 ! (n - k)" using k lA1 by auto
    moreover have "?A3 ! k = A1 ! k" using k lA1 by auto
    ultimately show ?thesis by simp
  qed
  have e: "even n \<longrightarrow> ?A3 ! (n div 2) = 0"
    using lA1 n by (auto elim!: evenE)
  show ?thesis
    using init l3 z m e by (intro exI [of _ ?A3]) blast
qed

subsection \<open>Conjugate-symmetric phases\<close>


text \<open>
  C6. Every vector that the random construction \<^verbatim>\<open>MySP(D=D)\<close> returns, for even and for odd
  \<open>D\<close>, stores a phase spectrum of length \<open>D\<close> with \<open>phase[0] = 0\<close>, \<open>phase[D-k] = -phase[k]\<close>
  for \<open>1 \<le> k < D/2\<close> and, for even \<open>D\<close>, \<open>phase[D/2] = 0\<close>. Consequently the inverse transform
  of \<open>exp(i\<cdot>phase)\<close> has no imaginary part (it is the stored values), and the Fourier
  coefficients of the values are \<open>exp(i\<cdot>phase)\<close>, of modulus one.
\<close>

theorem random_phase_conjugate_symmetric:
  assumes len: "length samples = n" and ok: "MySP_init n samples = Inr sp"
  shows "\<exists>ph. sp_a sp = Some ph \<and> sp_D sp = n \<and> length ph = n \<and> length (sp_v sp) = n
           \<and> ph ! 0 = 0
           \<and> (\<forall>k. 1 \<le> k \<and> 2 * k < n \<longrightarrow> ph ! (n - k) = - ph ! k)
           \<and> (even n \<longrightarrow> ph ! (n div 2) = 0)
           \<and> ifft (map (\<lambda>t. exp (\<i> * complex_of_real t)) ph) = Inr (map complex_of_real (sp_v sp))
           \<and> fft (map complex_of_real (sp_v sp)) = Inr (map (\<lambda>t. exp (\<i> * complex_of_real t)) ph)
           \<and> is_unitary sp"
proof -
  have n: "3 \<le> n"
  proof (rule ccontr)
    assume "\<not> 3 \<le> n"
    then have "n < 3" by simp
    from MySP_init_small [OF len this] ok show False by auto
  qed
  from MySP_init_large [OF len n] ok obtain ph where
    sp: "sp = \<lparr>sp_D = n, sp_v = map Re (idft (map cis ph)), sp_a = Some ph\<rparr>"
    and l: "length ph = n" and z: "ph ! 0 = 0"
    and m: "\<forall>k. 1 \<le> k \<and> 2 * k < n \<longrightarrow> ph ! (n - k) = - ph ! k"
    and e: "even n \<longrightarrow> ph ! (n div 2) = 0"
    by auto
  have "\<forall>k < length ph. ph ! ((length ph - k) mod length ph) = - ph ! k"
    using phase_symmetry_all [of ph] z m e l by blast
  then have h: "herm (map cis ph)" by (rule herm_cis_phase)
  have ne: "ph \<noteq> []" using l n by auto
  have mp: "map (\<lambda>t. exp (\<i> * complex_of_real t)) ph = map cis ph"
    by (simp only: exp_i_cis)
  have v: "map complex_of_real (sp_v sp) = idft (map cis ph)"
    using herm_idft_real [OF h] by (simp add: sp)
  have i: "ifft (map (\<lambda>t. exp (\<i> * complex_of_real t)) ph) = Inr (map complex_of_real (sp_v sp))"
    unfolding mp v using ne by (simp add: ifft_def)
  have d: "dft (map complex_of_real (sp_v sp)) = map cis ph"
    unfolding v by (rule dft_idft)
  have f: "fft (map complex_of_real (sp_v sp)) = Inr (map (\<lambda>t. exp (\<i> * complex_of_real t)) ph)"
    unfolding mp using ne d by (simp add: fft_def sp)
  have u: "is_unitary sp"
    unfolding is_unitary_def d by auto
  have lv: "length (sp_v sp) = n" using l by (simp add: sp)
  show ?thesis
    using l z m e i f u lv by (intro exI [of _ ph]) (simp add: sp)
qed

theorem random_phase_conjugate_symmetric_witness:
  "length [1/2, 1, 3, 5 :: real] = 4
   \<and> (\<exists>sp. MySP_init 4 [1/2, 1, 3, 5] = Inr sp \<and> sp_a sp = Some [0, 2, 0, - 2]
          \<and> length (sp_v sp) = 4 \<and> is_unitary sp)"
proof -
  let ?sp = "\<lparr>sp_D = 4, sp_v = map Re (idft (map (\<lambda>t. exp (\<i> * complex_of_real t)) [0, 2, 0, - 2])),
              sp_a = Some [0, 2, 0, - 2]\<rparr>"
  have h1: "length [1/2, 1, 3, 5 :: real] = 4" by simp
  have h2: "MySP_init 4 [1/2, 1, 3, 5] = Inr ?sp"
    by (simp add: MySP_init_def set_slice_from_def slice_def norm_idx_def set_item_def ifft_def)
  from random_phase_conjugate_symmetric [OF h1 h2] h2 show ?thesis
    by auto
qed

section \<open>Cleanup\<close>


lemma similarity_same:
  "length (sp_v x) = length (sp_v s) \<Longrightarrow>
   similarity x s = Inr (sum_list (map2 (*) (sp_v x) (sp_v s)))"
  by (simp add: similarity_def np_dot_def)

text \<open>
  The scan over members whose length is the query's: the pair it returns is either the one
  it started with, when no member's similarity exceeds the starting \<open>max_sim\<close>, or the position
  and similarity of the first member that attains the maximum.
\<close>

lemma cleanup_scan_result:
  fixes x :: MySP
  defines "sim \<equiv> \<lambda>s. sum_list (map2 (*) (sp_v x) (sp_v s))"
  assumes "\<forall>s \<in> set vs. length (sp_v s) = length (sp_v x)"
  shows "\<exists>c m. cleanup_scan x (enumerate i vs) closest max_sim = Inr (c, m)
           \<and> (\<forall>s \<in> set vs. sim s \<le> m)
           \<and> (c = closest \<and> m = max_sim
              \<or> (\<exists>j < length vs. c = int (i + j) \<and> m = sim (vs ! j) \<and> max_sim < m
                    \<and> (\<forall>j' < j. sim (vs ! j') < m)))"
  using assms(2)
proof (induction vs arbitrary: i closest max_sim)
  case Nil
  show ?case by simp
next
  case (Cons s rest)
  have ss: "similarity x s = Inr (sim s)"
    using Cons.prems by (simp add: similarity_same sim_def)
  have rest: "\<forall>s \<in> set rest. length (sp_v s) = length (sp_v x)"
    using Cons.prems by simp
  show ?case
  proof (cases "sim s > max_sim")
    case True
    from Cons.IH [OF rest, of "Suc i" "int i" "sim s"] obtain c m where
      r: "cleanup_scan x (enumerate (Suc i) rest) (int i) (sim s) = Inr (c, m)"
      and ub: "\<forall>t \<in> set rest. sim t \<le> m"
      and alt: "c = int i \<and> m = sim s
              \<or> (\<exists>j < length rest. c = int (Suc i + j) \<and> m = sim (rest ! j) \<and> sim s < m
                    \<and> (\<forall>j' < j. sim (rest ! j') < m))"
      by blast
    have eq: "cleanup_scan x (enumerate i (s # rest)) closest max_sim = Inr (c, m)"
      using True ss r by simp
    from alt show ?thesis
    proof
      assume a: "c = int i \<and> m = sim s"
      have "\<exists>j < length (s # rest). c = int (i + j) \<and> m = sim ((s # rest) ! j) \<and> max_sim < m
                    \<and> (\<forall>j' < j. sim ((s # rest) ! j') < m)"
        using a True by (intro exI [of _ 0]) simp
      moreover have "\<forall>t \<in> set (s # rest). sim t \<le> m" using ub a by simp
      ultimately show ?thesis using eq by blast
    next
      assume "\<exists>j < length rest. c = int (Suc i + j) \<and> m = sim (rest ! j) \<and> sim s < m
                    \<and> (\<forall>j' < j. sim (rest ! j') < m)"
      then obtain j where j: "j < length rest" "c = int (Suc i + j)" "m = sim (rest ! j)"
        "sim s < m" "\<forall>j' < j. sim (rest ! j') < m" by blast
      have "\<forall>j' < Suc j. sim ((s # rest) ! j') < m"
        using j(4,5) by (auto simp: less_Suc_eq_0_disj)
      then have "\<exists>j < length (s # rest). c = int (i + j) \<and> m = sim ((s # rest) ! j) \<and> max_sim < m
                    \<and> (\<forall>j' < j. sim ((s # rest) ! j') < m)"
        using j True by (intro exI [of _ "Suc j"]) simp
      moreover have "\<forall>t \<in> set (s # rest). sim t \<le> m" using ub j(4) by simp
      ultimately show ?thesis using eq by blast
    qed
  next
    case False
    from Cons.IH [OF rest, of "Suc i" closest max_sim] obtain c m where
      r: "cleanup_scan x (enumerate (Suc i) rest) closest max_sim = Inr (c, m)"
      and ub: "\<forall>t \<in> set rest. sim t \<le> m"
      and alt: "c = closest \<and> m = max_sim
              \<or> (\<exists>j < length rest. c = int (Suc i + j) \<and> m = sim (rest ! j) \<and> max_sim < m
                    \<and> (\<forall>j' < j. sim (rest ! j') < m))"
      by blast
    have eq: "cleanup_scan x (enumerate i (s # rest)) closest max_sim = Inr (c, m)"
      using False ss r by simp
    from alt show ?thesis
    proof
      assume a: "c = closest \<and> m = max_sim"
      then have "\<forall>t \<in> set (s # rest). sim t \<le> m" using ub False by simp
      then show ?thesis using eq a by blast
    next
      assume "\<exists>j < length rest. c = int (Suc i + j) \<and> m = sim (rest ! j) \<and> max_sim < m
                    \<and> (\<forall>j' < j. sim (rest ! j') < m)"
      then obtain j where j: "j < length rest" "c = int (Suc i + j)" "m = sim (rest ! j)"
        "max_sim < m" "\<forall>j' < j. sim (rest ! j') < m" by blast
      have sm: "sim s < m" using False j(4) by simp
      have "\<forall>j' < Suc j. sim ((s # rest) ! j') < m"
        using sm j(5) by (auto simp: less_Suc_eq_0_disj)
      then have "\<exists>j < length (s # rest). c = int (i + j) \<and> m = sim ((s # rest) ! j) \<and> max_sim < m
                    \<and> (\<forall>j' < j. sim ((s # rest) ! j') < m)"
        using j by (intro exI [of _ "Suc j"]) simp
      moreover have "\<forall>t \<in> set (s # rest). sim t \<le> m" using ub sm by simp
      ultimately show ?thesis using eq by blast
    qed
  qed
qed

text \<open>
  Where \<^verbatim>\<open>cleanup\<close> does what its docstring says: when every member has the query's length
  and some member's similarity exceeds the starting value \<open>-10\<^sup>5\<^sup>0\<close> of \<^verbatim>\<open>max_sim\<close>, it returns
  the member, the index and the similarity of the first maximum.
\<close>

lemma cleanup_argmax:
  fixes x :: MySP
  defines "sim \<equiv> \<lambda>s. sum_list (map2 (*) (sp_v x) (sp_v s))"
  assumes len: "\<forall>s \<in> set (vocab h). length (sp_v s) = length (sp_v x)"
    and above: "\<exists>s \<in> set (vocab h). - (10 ^ 50) < sim s"
  shows "\<exists>k < length (vocab h).
           cleanup h x = Inr (vocab h ! k, int k, sim (vocab h ! k))
           \<and> (\<forall>j < length (vocab h). sim (vocab h ! j) \<le> sim (vocab h ! k))
           \<and> (\<forall>j < k. sim (vocab h ! j) < sim (vocab h ! k))"
proof -
  from cleanup_scan_result [OF len, of 0 "- 1" "- (10 ^ 50)"] obtain c m where
    r: "cleanup_scan x (enumerate 0 (vocab h)) (- 1) (- (10 ^ 50)) = Inr (c, m)"
    and ub: "\<forall>s \<in> set (vocab h). sim s \<le> m"
    and alt: "c = - 1 \<and> m = - (10 ^ 50)
            \<or> (\<exists>j < length (vocab h). c = int (0 + j) \<and> m = sim (vocab h ! j) \<and> - (10 ^ 50) < m
                  \<and> (\<forall>j' < j. sim (vocab h ! j') < m))"
    unfolding sim_def by blast
  from above ub have "- (10 ^ 50) < m" by force
  with alt obtain k where k: "k < length (vocab h)" "c = int k" "m = sim (vocab h ! k)"
    "\<forall>j' < k. sim (vocab h ! j') < m" by auto
  have call: "HRR_call h (int k) = Inr (vocab h ! k)"
    using k(1) by (simp add: HRR_call_def get_item_def)
  have "cleanup h x = Inr (vocab h ! k, int k, sim (vocab h ! k))"
    unfolding cleanup_def r using call k by simp
  moreover have "\<forall>j < length (vocab h). sim (vocab h ! j) \<le> sim (vocab h ! k)"
    using ub k(3) by simp
  ultimately show ?thesis using k by blast
qed

lemma dft_delta3: "dft [1, 0, 0] = [1, 1, 1]"
proof -
  have s: "{..<Suc (Suc (Suc 0))} = {0, Suc 0, Suc (Suc 0)}" by auto
  show ?thesis by (simp add: dft_def s upt_rec numeral_3_eq_3)
qed

lemma idft_ones3: "idft [1, 1, 1] = [1, 0, 0]"
  using idft_dft [of "[1, 0, 0]"] by (simp only: dft_delta3)

text \<open>
  C8 fails on the code at a query whose similarity to every member is not above \<open>-10\<^sup>5\<^sup>0\<close>.
  The vocabulary \<^verbatim>\<open>HRR(1, 3)\<close> whose sampled phases are all zero has the one member
  \<open>m = [1, 0, 0]\<close>; for the query \<^verbatim>\<open>m * (-1e51)\<close> the similarity to \<open>m\<close> is \<open>-10\<^sup>5\<^sup>1\<close>, the scan
  never updates, and \<^verbatim>\<open>cleanup\<close> returns the index \<open>-1\<close> and the value \<open>-10\<^sup>5\<^sup>0\<close>, which is not the
  index of the member and not its similarity.
\<close>

theorem cleanup_sentinel:
  "HRR_init 1 3 (\<lambda>k. [0, 0, 0]) =
     Inr \<lparr>hrr_N = 1, hrr_D = 3, vocab = [\<lparr>sp_D = 3, sp_v = [1, 0, 0], sp_a = Some [0, 0, 0]\<rparr>]\<rparr>
   \<and> similarity (scale \<lparr>sp_D = 3, sp_v = [1, 0, 0], sp_a = Some [0, 0, 0]\<rparr> (- (10 ^ 51)))
        \<lparr>sp_D = 3, sp_v = [1, 0, 0], sp_a = Some [0, 0, 0]\<rparr> = Inr (- (10 ^ 51))
   \<and> cleanup \<lparr>hrr_N = 1, hrr_D = 3, vocab = [\<lparr>sp_D = 3, sp_v = [1, 0, 0], sp_a = Some [0, 0, 0]\<rparr>]\<rparr>
        (scale \<lparr>sp_D = 3, sp_v = [1, 0, 0], sp_a = Some [0, 0, 0]\<rparr> (- (10 ^ 51)))
     = Inr (\<lparr>sp_D = 3, sp_v = [1, 0, 0], sp_a = Some [0, 0, 0]\<rparr>, - 1, - (10 ^ 50))"
proof -
  let ?m = "\<lparr>sp_D = 3, sp_v = [1, 0, 0], sp_a = Some [0, 0, 0]\<rparr>"
  have i: "MySP_init 3 [0, 0, 0] = Inr ?m"
    by (simp add: MySP_init_def set_slice_from_def slice_def norm_idx_def set_item_def ifft_def
        idft_ones3)
  have h: "HRR_init 1 3 (\<lambda>k. [0, 0, 0]) = Inr \<lparr>hrr_N = 1, hrr_D = 3, vocab = [?m]\<rparr>"
    by (simp add: HRR_init_def i)
  have s: "similarity (scale ?m (- (10 ^ 51))) ?m = Inr (- (10 ^ 51))"
    by (simp add: similarity_def np_dot_def scale_def MySP_from_def)
  have c: "cleanup \<lparr>hrr_N = 1, hrr_D = 3, vocab = [?m]\<rparr> (scale ?m (- (10 ^ 51)))
     = Inr (?m, - 1, - (10 ^ 50))"
    using s by (simp add: cleanup_def HRR_call_def get_item_def)
  from h s c show ?thesis by simp
qed

section \<open>Fractional powers\<close>


lemma cpow_unit: "cmod z = 1 \<Longrightarrow> cpow z p = Inr (cis (p * Arg z))"
  by (auto simp: cpow_def)

lemma Arg_eq_pi_unit:
  assumes "cmod z = 1" and "Arg z = pi"
  shows "z = - 1"
  using rcis_cmod_Arg [of z] assms by (simp add: rcis_def)

lemma Arg_cnj_unit:
  assumes u: "cmod z = 1" and ne: "z \<noteq> - 1"
  shows "Arg (cnj z) = - Arg z"
proof (rule cis_Arg_unique)
  have z0: "z \<noteq> 0" using u by auto
  have "sgn (cnj z) = cnj (sgn z)" by (simp add: sgn_eq)
  also have "\<dots> = cnj (cis (Arg z))" using z0 by (simp add: cis_Arg)
  finally show "sgn (cnj z) = cis (- Arg z)" by (simp add: cis_cnj)
  have "Arg z \<noteq> pi" using Arg_eq_pi_unit [OF u] ne by blast
  then show "- pi < - Arg z" using Arg_bounded [of z] by simp
  show "- Arg z \<le> pi" using Arg_bounded [of z] by simp
qed

lemma herm_map_on:
  assumes h: "herm xs" and f: "\<And>z. z \<in> set xs \<Longrightarrow> f (cnj z) = cnj (f z)"
  shows "herm (map f xs)"
  unfolding herm_def
proof (intro allI impI)
  fix k assume "k < length (map f xs)"
  then have k: "k < length xs" by simp
  then have "0 < length xs" by (cases xs) auto
  then have k': "(length xs - k) mod length xs < length xs" by simp
  have "f (cnj (xs ! k)) = cnj (f (xs ! k))" using k by (simp add: f)
  then show "map f xs ! ((length (map f xs) - k) mod length (map f xs)) = cnj (map f xs ! k)"
    using k k' herm_nth [OF h k] by simp
qed

text \<open>What \<^verbatim>\<open>power\<close> returns on a unitary vector none of whose coefficients is \<open>-1\<close>.\<close>

lemma power_sp_unitary:
  assumes u: "is_unitary x" and ne: "sp_v x \<noteq> []"
    and m1: "\<forall>c \<in> set (dft (map complex_of_real (sp_v x))). c \<noteq> - 1"
  shows "power_sp x p =
           Inr (MySP_from (map Re (idft (map (\<lambda>z. cis (p * Arg z)) (dft (map complex_of_real (sp_v x)))))))
       \<and> dft (map complex_of_real (map Re (idft (map (\<lambda>z. cis (p * Arg z))
            (dft (map complex_of_real (sp_v x))))))) =
           map (\<lambda>z. cis (p * Arg z)) (dft (map complex_of_real (sp_v x)))"
proof -
  let ?X = "dft (map complex_of_real (sp_v x))"
  let ?P = "map (\<lambda>z. cis (p * Arg z)) ?X"
  have un: "cmod c = 1" if "c \<in> set ?X" for c
    using u that by (simp add: is_unitary_def)
  have "collect (map (\<lambda>z. cpow z p) ?X) = Inr ?P"
    by (rule collect_map_Inr) (simp add: cpow_unit un)
  then have pw: "power_sp x p = Inr (MySP_from (map Re (idft ?P)))"
    using ne by (simp add: power_sp_def fft_def ifft_def)
  have "herm ?P"
  proof (rule herm_map_on [OF herm_dft_real])
    fix z assume z: "z \<in> set ?X"
    then have "Arg (cnj z) = - Arg z"
      using un m1 by (intro Arg_cnj_unit) auto
    then show "cis (p * Arg (cnj z)) = cnj (cis (p * Arg z))"
      by (simp add: cis_cnj)
  qed
  then have "dft (map complex_of_real (map Re (idft ?P))) = ?P"
    by (rule dft_Re_idft)
  with pw show ?thesis by simp
qed

text \<open>
  C3 as amended. For a unitary, non-empty \<open>v\<close> none of whose Fourier coefficients is \<open>-1\<close> and
  for \<open>p\<close> with \<open>\<bar>p \<cdot> angle(c)\<bar> < \<pi>\<close> at every Fourier coefficient \<open>c\<close> of \<open>v\<close>,
  \<^verbatim>\<open>v.power(p).power(q)\<close> and \<^verbatim>\<open>v.power(p*q)\<close> return the same vector for every \<open>q\<close>; exactly so
  over the reals.
\<close>

theorem power_composition:
  assumes u: "is_unitary x" and ne: "sp_v x \<noteq> []"
    and m1: "\<forall>c \<in> set (dft (map complex_of_real (sp_v x))). c \<noteq> - 1"
    and nowrap: "\<forall>c \<in> set (dft (map complex_of_real (sp_v x))). \<bar>p * Arg c\<bar> < pi"
  shows "\<exists>y r. power_sp x p = Inr y \<and> power_sp y q = Inr r \<and> power_sp x (p * q) = Inr r"
proof -
  let ?X = "dft (map complex_of_real (sp_v x))"
  let ?P = "map (\<lambda>z. cis (p * Arg z)) ?X"
  let ?y = "MySP_from (map Re (idft ?P))"
  let ?r = "MySP_from (map Re (idft (map (\<lambda>z. cis (p * q * Arg z)) ?X)))"
  from power_sp_unitary [OF u ne m1, of p]
  have y: "power_sp x p = Inr ?y" and dy: "dft (map complex_of_real (map Re (idft ?P))) = ?P"
    by simp_all
  have yne: "sp_v ?y \<noteq> []" using ne by (simp add: MySP_from_def)
  have aP: "Arg (cis (p * Arg z)) = p * Arg z" if "z \<in> set ?X" for z
    using nowrap that by (intro Arg_cis) (auto simp: abs_less_iff)
  have "collect (map (\<lambda>z. cpow z q) ?P) = Inr (map (\<lambda>z. cis (q * Arg z)) ?P)"
    by (rule collect_map_Inr) (auto simp: cpow_unit)
  also have "map (\<lambda>z. cis (q * Arg z)) ?P = map (\<lambda>z. cis (p * q * Arg z)) ?X"
    by (simp add: aP mult.assoc mult.left_commute)
  finally have r: "power_sp ?y q = Inr ?r"
    using yne ne by (simp add: power_sp_def fft_def ifft_def MySP_from_def dy [simplified])
  from power_sp_unitary [OF u ne m1, of "p * q"]
  have "power_sp x (p * q) = Inr ?r" by simp
  with y r show ?thesis by blast
qed

text \<open>
  C3 as stated fails. The vector \<open>[-1]\<close> is unitary (its one Fourier coefficient is \<open>-1\<close>);
  its power \<open>1/2\<close> has the coefficient \<open>i\<close>, whose real part \<open>0\<close> is all that \<^verbatim>\<open>power\<close> keeps, so
  \<^verbatim>\<open>v.power(0.5).power(2)\<close> is \<open>[0]\<close> while \<^verbatim>\<open>v.power(0.5*2)\<close> is \<open>[-1]\<close>.
\<close>

theorem power_composition_counterexample:
  "is_unitary (MySP_from [- 1])
   \<and> power_sp (MySP_from [- 1]) (1/2) = Inr (MySP_from [0])
   \<and> power_sp (MySP_from [0]) 2 = Inr (MySP_from [0])
   \<and> power_sp (MySP_from [- 1]) ((1/2) * 2) = Inr (MySP_from [- 1])"
proof -
  have d: "dft [- 1] = [- 1]" by (simp add: dft_def)
  have d0: "dft [0] = [0]" by (simp add: dft_def)
  have a: "Arg (- 1) = pi" by (rule cis_Arg_unique) simp_all
  have i1: "idft [\<i>] = [\<i>]" by (simp add: idft_def)
  have i2: "idft [0] = [0]" by (simp add: idft_def)
  have i3: "idft [- 1] = [- 1]" by (simp add: idft_def)
  have u: "is_unitary (MySP_from [- 1])" by (simp add: is_unitary_def MySP_from_def d)
  have p1: "power_sp (MySP_from [- 1]) (1/2) = Inr (MySP_from [0])"
    by (simp add: power_sp_def fft_def ifft_def MySP_from_def d cpow_def a i1)
  have p2: "power_sp (MySP_from [0]) 2 = Inr (MySP_from [0])"
    by (simp add: power_sp_def fft_def ifft_def MySP_from_def d0 cpow_def i2)
  have p3: "power_sp (MySP_from [- 1]) ((1/2) * 2) = Inr (MySP_from [- 1])"
    by (simp add: power_sp_def fft_def ifft_def MySP_from_def d cpow_def a i3)
  from u p1 p2 p3 show ?thesis by blast
qed

subsection \<open>A vector of dimension three\<close>


text \<open>
  The vector that \<^verbatim>\<open>MySP(D=3)\<close> builds from the samples \<open>[0, 1/4, 0]\<close>: its phases are
  \<open>[0, 1/2, -1/2]\<close> and its Fourier coefficients \<open>[1, cis (1/2), cis (-1/2)]\<close>.
\<close>

lemma herm3: "herm [1, cis t, cis (- t)]"
  unfolding herm_def
proof (intro allI impI)
  fix k assume "k < length [1, cis t, cis (- t)]"
  then consider "k = 0" | "k = 1" | "k = 2" by fastforce
  then show "[1, cis t, cis (- t)] ! ((length [1, cis t, cis (- t)] - k) mod length [1, cis t, cis (- t)])
             = cnj ([1, cis t, cis (- t)] ! k)"
    by cases (simp_all add: cis_cnj numeral_2_eq_2)
qed

lemma MySP_init_example:
  "MySP_init 3 [0, 1/4, 0] =
     Inr \<lparr>sp_D = 3, sp_v = map Re (idft [1, cis (1/2), cis (- (1/2))]), sp_a = Some [0, 1/2, - (1/2)]\<rparr>"
  by (simp add: MySP_init_def set_slice_from_def slice_def norm_idx_def set_item_def ifft_def
      exp_i_cis)

lemma dft_example:
  "dft (map complex_of_real (map Re (idft [1, cis t, cis (- t)]))) = [1, cis t, cis (- t)]"
  by (rule dft_Re_idft) (rule herm3)

lemma Arg_one: "Arg 1 = 0"
  by (rule cis_Arg_unique) simp_all

lemma cis_neq_minus_one: "\<bar>t\<bar> < pi \<Longrightarrow> cis t \<noteq> - 1"
proof
  assume t: "\<bar>t\<bar> < pi" and "cis t = - 1"
  then have "Arg (cis t) = Arg (- 1)" by simp
  moreover have "Arg (cis t) = t" using t by (intro Arg_cis) (auto simp: abs_less_iff)
  moreover have "Arg (- 1) = pi" by (rule cis_Arg_unique) simp_all
  ultimately show False using t by simp
qed

theorem power_composition_witness:
  "is_unitary \<lparr>sp_D = 3, sp_v = map Re (idft [1, cis (1/2), cis (- (1/2))]), sp_a = Some [0, 1/2, - (1/2)]\<rparr>
   \<and> sp_v \<lparr>sp_D = 3, sp_v = map Re (idft [1, cis (1/2), cis (- (1/2))]), sp_a = Some [0, 1/2, - (1/2)]\<rparr> \<noteq> []
   \<and> dft (map complex_of_real (sp_v
          \<lparr>sp_D = 3, sp_v = map Re (idft [1, cis (1/2), cis (- (1/2))]), sp_a = Some [0, 1/2, - (1/2)]\<rparr>))
       = [1, cis (1/2), cis (- (1/2))]
   \<and> cis (1/2) \<noteq> - 1 \<and> cis (- (1/2)) \<noteq> - 1
   \<and> \<bar>2 * Arg 1\<bar> < pi \<and> \<bar>2 * Arg (cis (1/2))\<bar> < pi \<and> \<bar>2 * Arg (cis (- (1/2)))\<bar> < pi
   \<and> (\<exists>y r. power_sp \<lparr>sp_D = 3, sp_v = map Re (idft [1, cis (1/2), cis (- (1/2))]), sp_a = Some [0, 1/2, - (1/2)]\<rparr> 2
               = Inr y
           \<and> power_sp y (1/2) = Inr r
           \<and> power_sp \<lparr>sp_D = 3, sp_v = map Re (idft [1, cis (1/2), cis (- (1/2))]), sp_a = Some [0, 1/2, - (1/2)]\<rparr>
               (2 * (1/2)) = Inr r)"
proof -
  let ?x = "\<lparr>sp_D = 3, sp_v = map Re (idft [1, cis (1/2), cis (- (1/2))]), sp_a = Some [0, 1/2, - (1/2)]\<rparr>"
  have d: "dft (map complex_of_real (sp_v ?x)) = [1, cis (1/2), cis (- (1/2))]"
    using dft_example [of "1/2"] by simp
  have p3: "2 \<le> pi" by (rule pi_ge_two)
  have a1: "Arg (cis (1/2)) = 1/2" using p3 by (intro Arg_cis) simp_all
  have a2: "Arg (cis (- (1/2))) = - (1/2)" using p3 by (intro Arg_cis) simp_all
  have n1: "cis (1/2) \<noteq> - 1" "cis (- (1/2)) \<noteq> - 1" using p3 by (simp_all add: cis_neq_minus_one)
  have h1: "is_unitary ?x" unfolding is_unitary_def d by simp
  have h2: "sp_v ?x \<noteq> []" by simp
  have h3: "\<forall>c \<in> set (dft (map complex_of_real (sp_v ?x))). c \<noteq> - 1"
    unfolding d using n1 by simp
  have h4: "\<forall>c \<in> set (dft (map complex_of_real (sp_v ?x))). \<bar>2 * Arg c\<bar> < pi"
    unfolding d using p3 by (simp add: Arg_one a1 a2)
  have b: "\<bar>2 * Arg 1\<bar> < pi" "\<bar>2 * Arg (cis (1/2))\<bar> < pi" "\<bar>2 * Arg (cis (- (1/2)))\<bar> < pi"
    using p3 by (simp_all add: Arg_one a1 a2)
  from power_composition [OF h1 h2 h3 h4, of "1/2"] h1 h2 d n1 b show ?thesis
    by blast
qed

text \<open>
  The same vector shows why the composition law needs a bound on \<open>p \<cdot> angle(c)\<close>: its power \<open>8\<close> has the
  phases \<open>\<plusminus>4\<close>, which \<^verbatim>\<open>angle\<close> reads back as \<open>\<plusminus>(4 - 2\<pi>)\<close>, so \<^verbatim>\<open>v.power(8).power(0.5)\<close> has the
  coefficients \<open>-cis (\<plusminus>2)\<close> where \<^verbatim>\<open>v.power(8*0.5)\<close> has \<open>cis (\<plusminus>2)\<close>, and the two vectors differ.
\<close>

lemma power_wraps:
  "power_sp \<lparr>sp_D = 3, sp_v = map Re (idft [1, cis (1/2), cis (- (1/2))]), sp_a = Some [0, 1/2, - (1/2)]\<rparr> 8
     = Inr (MySP_from (map Re (idft [1, cis 4, cis (- 4)])))
   \<and> power_sp (MySP_from (map Re (idft [1, cis 4, cis (- 4)]))) (1/2)
     = Inr (MySP_from (map Re (idft [1, - cis 2, - cis (- 2)])))
   \<and> power_sp \<lparr>sp_D = 3, sp_v = map Re (idft [1, cis (1/2), cis (- (1/2))]), sp_a = Some [0, 1/2, - (1/2)]\<rparr> (8 * (1/2))
     = Inr (MySP_from (map Re (idft [1, cis 2, cis (- 2)])))
   \<and> map Re (idft [1, - cis 2, - cis (- 2)]) \<noteq> map Re (idft [1, cis 2, cis (- 2)])"
proof -
  let ?x = "\<lparr>sp_D = 3, sp_v = map Re (idft [1, cis (1/2), cis (- (1/2))]), sp_a = Some [0, 1/2, - (1/2)]\<rparr>"
  have d: "dft (map complex_of_real (sp_v ?x)) = [1, cis (1/2), cis (- (1/2))]"
    using dft_example [of "1/2"] by simp
  have p3: "2 \<le> pi" "pi < 4" using pi_ge_two pi_less_4 by simp_all
  have a1: "Arg (cis (1/2)) = 1/2" using p3 by (intro Arg_cis) simp_all
  have a2: "Arg (cis (- (1/2))) = - (1/2)" using p3 by (intro Arg_cis) simp_all
  have n1: "cis (1/2) \<noteq> - 1" "cis (- (1/2)) \<noteq> - 1" using p3 by (simp_all add: cis_neq_minus_one)
  have h1: "is_unitary ?x" unfolding is_unitary_def d by simp
  have h2: "sp_v ?x \<noteq> []" by simp
  have h3: "\<forall>c \<in> set (dft (map complex_of_real (sp_v ?x))). c \<noteq> - 1"
    unfolding d using n1 by simp
  have pw4: "power_sp ?x 8 = Inr (MySP_from (map Re (idft [1, cis 4, cis (- 4)])))"
    using power_sp_unitary [OF h1 h2 h3, of 8] unfolding d by (simp add: Arg_one a1 a2)
  have pw2: "power_sp ?x (8 * (1/2)) = Inr (MySP_from (map Re (idft [1, cis 2, cis (- 2)])))"
    using power_sp_unitary [OF h1 h2 h3, of "8 * (1/2)"] unfolding d by (simp add: Arg_one a1 a2)
  have c4: "cis 4 = cis (4 - 2 * pi)" "cis (- 4) = cis (2 * pi - 4)"
    using cis_shift_2pi [of "4 - 2 * pi" 1] cis_shift_2pi [of "2 * pi - 4" "- 1"] by simp_all
  have a4: "Arg (cis 4) = 4 - 2 * pi"
    unfolding c4 using p3 by (intro Arg_cis) simp_all
  have a4': "Arg (cis (- 4)) = 2 * pi - 4"
    unfolding c4 using p3 by (intro Arg_cis) simp_all
  have half: "cis (2 - pi) = - cis 2" "cis (pi - 2) = - cis (- 2)"
    by (simp_all add: complex_eq_iff)
  have hv: "(1/2) * (4 - 2 * pi) = 2 - pi" "(1/2) * (2 * pi - 4) = pi - 2"
    by simp_all
  have d4: "dft (map complex_of_real (map Re (idft [1, cis 4, cis (- 4)]))) = [1, cis 4, cis (- 4)]"
    by (rule dft_example)
  have cl: "collect (map (\<lambda>z. cpow z (1/2)) [1, cis 4, cis (- 4)]) = Inr [1, - cis 2, - cis (- 2)]"
    by (simp only: list.map collect.simps cpow_unit norm_cis norm_one Arg_one a4 a4' hv half
        mult_zero_right cis_zero and_then_Inr)
  have sv: "sp_v (MySP_from vals) = vals" for vals by (simp add: MySP_from_def)
  have ne4: "map complex_of_real (map Re (idft [1, cis 4, cis (- 4)])) \<noteq> []" by simp
  have f4: "fft (map complex_of_real (map Re (idft [1, cis 4, cis (- 4)]))) = Inr [1, cis 4, cis (- 4)]"
    by (simp only: fft_def ne4 if_False d4)
  have i4: "ifft [1, - cis 2, - cis (- 2)] = Inr (idft [1, - cis 2, - cis (- 2)])"
    by (simp add: ifft_def)
  have pwh: "power_sp (MySP_from (map Re (idft [1, cis 4, cis (- 4)]))) (1/2)
     = Inr (MySP_from (map Re (idft [1, - cis 2, - cis (- 2)])))"
    unfolding power_sp_def sv f4 and_then_Inr cl i4 by (rule refl)
  have neq: "map Re (idft [1, - cis 2, - cis (- 2)]) \<noteq> map Re (idft [1, cis 2, cis (- 2)])"
  proof
    assume e: "map Re (idft [1, - cis 2, - cis (- 2)]) = map Re (idft [1, cis 2, cis (- 2)])"
    have hm: "herm [1, - cis 2, - cis (- 2)]"
      using herm3 [of "2 - pi"] by (simp add: half)
    have "[1, - cis 2, - cis (- 2)] = dft (map complex_of_real (map Re (idft [1, - cis 2, - cis (- 2)])))"
      using dft_Re_idft [OF hm] by simp
    also have "\<dots> = [1, cis 2, cis (- 2)]"
      unfolding e by (rule dft_example)
    finally have "- cis 2 = cis 2" by simp
    then show False by simp
  qed
  from pw4 pwh pw2 neq show ?thesis by blast
qed

end
